theory Spec2Isabelle
  imports Main
begin

section \<open>Exceptions\<close>

text \<open>
  The exception classes the program distinguishes.  \<open>RequestException\<close> and
  \<open>BadZipFile\<close> are the two classes the scheduler treats as retryable,
  \<open>KeyboardInterrupt\<close> is the only one that is not an \<open>Exception\<close>, and the
  remaining constructors stand for every other \<open>Exception\<close> subclass
  (\<open>OSError\<close> here means an \<open>OSError\<close> that is not a \<open>RequestException\<close>).
\<close>

datatype exn = RequestException | BadZipFile | KeyboardInterrupt
  | OSError | ValueError | IndexError | OverflowError

fun is_Exception :: "exn \<Rightarrow> bool" where
  "is_Exception KeyboardInterrupt = False"
| "is_Exception _ = True"

fun retryable :: "exn \<Rightarrow> bool" where
  "retryable RequestException = True"
| "retryable BadZipFile = True"
| "retryable _ = False"

section \<open>Python string operations\<close>

text \<open>
  A Python \<open>str\<close> is modelled as a \<open>string\<close>; a character is read as the code
  point below 256 with the same number.  \<open>isspace\<close> lists the code points
  that \<open>str.strip()\<close> and \<open>str.split()\<close> treat as whitespace, and
  \<open>is_linebreak\<close> those at which \<open>str.splitlines()\<close> cuts.
\<close>

definition isspace :: "char \<Rightarrow> bool" where
  "isspace c = (let n = (of_char c :: nat)
                in (9 \<le> n \<and> n \<le> 13) \<or> (28 \<le> n \<and> n \<le> 32) \<or> n = 133 \<or> n = 160)"

definition is_linebreak :: "char \<Rightarrow> bool" where
  "is_linebreak c = (let n = (of_char c :: nat)
                     in (10 \<le> n \<and> n \<le> 13) \<or> (28 \<le> n \<and> n \<le> 30) \<or> n = 133)"

text \<open>\<open>str.splitlines()\<close>: the pair CR LF is one boundary, and a trailing boundary
  opens no further line.  The accumulator holds the current line reversed.\<close>

fun splitlines_from :: "string \<Rightarrow> string \<Rightarrow> string list" where
  "splitlines_from acc [] = (if acc = [] then [] else [rev acc])"
| "splitlines_from acc (c # cs) =
     (if is_linebreak c
      then rev acc # splitlines_from []
             (if c = CHR 0x0D \<and> cs \<noteq> [] \<and> hd cs = CHR 0x0A then tl cs else cs)
      else splitlines_from (c # acc) cs)"

definition splitlines :: "string \<Rightarrow> string list" where
  "splitlines s = splitlines_from [] s"

text \<open>\<open>str.strip()\<close> with no argument.\<close>

definition strip :: "string \<Rightarrow> string" where
  "strip s = rev (dropWhile isspace (rev (dropWhile isspace s)))"

text \<open>\<open>str.split()\<close> with no argument: maximal runs of non-whitespace.\<close>

fun split_from :: "string \<Rightarrow> string \<Rightarrow> string list" where
  "split_from acc [] = (if acc = [] then [] else [rev acc])"
| "split_from acc (c # cs) =
     (if isspace c
      then (if acc = [] then split_from [] cs else rev acc # split_from [] cs)
      else split_from (c # acc) cs)"

definition split_ws :: "string \<Rightarrow> string list" where
  "split_ws s = split_from [] s"

text \<open>\<open>str.endswith(suffix)\<close>.\<close>

definition endswith :: "string \<Rightarrow> string \<Rightarrow> bool" where
  "endswith s suf = (length suf \<le> length s \<and> drop (length s - length suf) s = suf)"

text \<open>\<open>str.rsplit(sep, 1)[-1]\<close> for a one-character separator: the text after the
  last occurrence of the separator, the whole string when there is none.\<close>

definition rsplit1_last :: "char \<Rightarrow> string \<Rightarrow> string" where
  "rsplit1_last sep s = rev (takeWhile (\<lambda>c. c \<noteq> sep) (rev s))"

section \<open>Helpers of the downloader\<close>

definition safe_filename :: "string \<Rightarrow> string" where
  "safe_filename url = rsplit1_last CHR ''/'' url"

definition extract_year :: "string \<Rightarrow> string" where
  "extract_year ts_filename = take 4 ts_filename"

definition GKG_SUFFIX :: string where
  "GKG_SUFFIX = ''.gkg.csv.zip''"

section \<open>Pointer resolution\<close>

text \<open>The list comprehension of \<open>poll_once\<close>: the trimmed lines of the body that
  are not empty after trimming.\<close>

definition pointer_lines :: "string \<Rightarrow> string list" where
  "pointer_lines text = [strip ln. ln \<leftarrow> splitlines text, strip ln \<noteq> []]"

text \<open>The \<open>for\<close> loop of \<open>poll_once\<close>.  \<open>parts[-1]\<close> raises \<open>IndexError\<close> on an
  empty list.\<close>

fun scan_lines :: "string list \<Rightarrow> exn + string option" where
  "scan_lines [] = Inr None"
| "scan_lines (line # rest) =
     (if endswith line GKG_SUFFIX
      then (case split_ws line of
              [] \<Rightarrow> Inl IndexError
            | p # ps \<Rightarrow> Inr (Some (last (p # ps))))
      else scan_lines rest)"

text \<open>What \<open>poll_once\<close> computes from the text of a successful response.\<close>

definition resolve_body :: "string \<Rightarrow> exn + string option" where
  "resolve_body text = scan_lines (pointer_lines text)"

section \<open>Paths\<close>

text \<open>
  \<open>pathlib\<close> paths on a POSIX system: a root (empty, one slash or two slashes) and
  the segments below it.  Paths are compared as \<open>pathlib\<close> compares them, segment
  by segment; \<open>..\<close> and symbolic links are not resolved.
\<close>

datatype path = Path (root: string) (segs: "string list")

text \<open>\<open>str.split(sep)\<close> for a one-character separator.\<close>

fun split_on :: "char \<Rightarrow> string \<Rightarrow> string \<Rightarrow> string list" where
  "split_on sep acc [] = [rev acc]"
| "split_on sep acc (c # cs) =
     (if c = sep then rev acc # split_on sep [] cs else split_on sep (c # acc) cs)"

definition splitroot :: "string \<Rightarrow> string \<times> string" where
  "splitroot part =
     (if part \<noteq> [] \<and> hd part = CHR ''/''
      then (let stripped_part = dropWhile (\<lambda>c. c = CHR ''/'') part
            in if length part - length stripped_part = 2
               then (''//'', stripped_part) else (''/'', stripped_part))
      else ('''', part))"

text \<open>\<open>Path(s)\<close>: empty segments and \<open>.\<close> segments are dropped.\<close>

definition parse_path :: "string \<Rightarrow> path" where
  "parse_path s =
     (case splitroot s of
        (r, rel) \<Rightarrow> Path r (filter (\<lambda>x. x \<noteq> [] \<and> x \<noteq> ''.'') (split_on CHR ''/'' [] rel)))"

text \<open>\<open>p / s\<close>: a rooted right operand replaces the left one.\<close>

definition pjoin :: "path \<Rightarrow> string \<Rightarrow> path" where
  "pjoin p s =
     (let q = parse_path s
      in if root q \<noteq> [] then q else Path (root p) (segs p @ segs q))"

definition parent :: "path \<Rightarrow> path" where
  "parent p = Path (root p) (butlast (segs p))"

definition name_of :: "path \<Rightarrow> string" where
  "name_of p = (if segs p = [] then [] else last (segs p))"

text \<open>\<open>str.rfind(c)\<close>: the index of the last occurrence, \<open>-1\<close> when there is none.\<close>

definition rfind :: "char \<Rightarrow> string \<Rightarrow> int" where
  "rfind c s =
     (if c \<in> set s
      then int (length s) - 1 - int (length (takeWhile (\<lambda>x. x \<noteq> c) (rev s)))
      else - 1)"

text \<open>\<open>PurePath.suffix\<close>, computed from the name.\<close>

definition suffix_of :: "string \<Rightarrow> string" where
  "suffix_of name =
     (let i = rfind CHR ''.'' name
      in if 0 < i \<and> i < int (length name) - 1 then drop (nat i) name else [])"

text \<open>\<open>PurePath.with_suffix(suffix)\<close>.\<close>

definition with_suffix :: "path \<Rightarrow> string \<Rightarrow> exn + path" where
  "with_suffix p suffix =
     (if CHR ''/'' \<in> set suffix then Inl ValueError
      else if (suffix \<noteq> [] \<and> hd suffix \<noteq> CHR ''.'') \<or> suffix = ''.'' then Inl ValueError
      else let name = name_of p
           in if name = [] then Inl ValueError
              else let old_suffix = suffix_of name;
                       name' = (if old_suffix = [] then name @ suffix
                                else take (length name - length old_suffix) name @ suffix)
                   in Inr (Path (root p) (butlast (segs p) @ [name'])))"

text \<open>\<open>str(p)\<close>.\<close>

fun join_segs :: "string list \<Rightarrow> string" where
  "join_segs [] = []"
| "join_segs [x] = x"
| "join_segs (x # y # ys) = x @ CHR ''/'' # join_segs (y # ys)"

definition str_of_path :: "path \<Rightarrow> string" where
  "str_of_path p = (if root p = [] \<and> segs p = [] then ''.'' else root p @ join_segs (segs p))"

section \<open>The world outside the program\<close>

type_synonym bytes = string

datatype node = Dir | File bytes

type_synonym filesystem = "path \<Rightarrow> node option"

text \<open>The root and the working directory always exist.\<close>

definition node_at :: "filesystem \<Rightarrow> path \<Rightarrow> node option" where
  "node_at f p = (if segs p = [] then Some Dir else f p)"

datatype level = DEBUG | INFO | WARNING | ERROR

datatype arg = S string | E exn | N int

datatype fsop = Mkdir path | OpenW path | Write path bytes | Close path | Rename path path

text \<open>
  What an observer of the process sees, in order: a GET request sent, a completed
  sleep, a log record (format string and arguments), and each file system
  operation together with the file system it leaves behind.
\<close>

datatype event = Get string | Sleep int | Log level string "arg list" | Fs fsop filesystem

record world =
  fs :: filesystem
  tick :: nat
  trace :: "event list"

text \<open>
  A response of the HTTP session: \<open>iter_content r n\<close> is the sequence of chunks that
  \<open>r.iter_content(chunk_size=n)\<close> yields and the exception that ends the iteration
  early, if any.
\<close>

record response =
  status_code :: nat
  body_text :: string
  iter_content :: "nat \<Rightarrow> bytes list \<times> exn option"

text \<open>
  The environment answers by the tick at which it is asked: \<open>http\<close> is the outcome
  of \<open>session.get\<close> (after the session's own retries), \<open>fault\<close> an exception raised
  by the operating system or an interrupt delivered during the operation, and
  \<open>unzip\<close> the members of an archive (name and content), or the exception
  \<open>zipfile.ZipFile\<close> raises on its bytes.
\<close>

record env =
  http :: "nat \<Rightarrow> string \<Rightarrow> exn + response"
  fault :: "nat \<Rightarrow> exn option"
  unzip :: "bytes \<Rightarrow> exn + (string \<times> bytes) list"

subsection \<open>Sequencing with exceptions\<close>

definition seq :: "('s \<Rightarrow> (exn + 'a) \<times> 's) \<Rightarrow> ('a \<Rightarrow> 's \<Rightarrow> (exn + 'b) \<times> 's)
    \<Rightarrow> 's \<Rightarrow> (exn + 'b) \<times> 's" where
  "seq m f w = (case m w of (Inl e, w') \<Rightarrow> (Inl e, w') | (Inr x, w') \<Rightarrow> f x w')"

definition lift :: "exn + 'a \<Rightarrow> 's \<Rightarrow> (exn + 'a) \<times> 's" where
  "lift r w = (r, w)"

text \<open>Leaving a \<open>with\<close> block, normally or by an exception.\<close>

definition ensuring :: "('s \<Rightarrow> (exn + 'a) \<times> 's) \<Rightarrow> ('s \<Rightarrow> 's) \<Rightarrow> 's \<Rightarrow> (exn + 'a) \<times> 's" where
  "ensuring m fin w = (case m w of (r, w') \<Rightarrow> (r, fin w'))"

subsection \<open>Primitive operations\<close>

definition emit :: "event \<Rightarrow> 'a world_scheme \<Rightarrow> 'a world_scheme" where
  "emit ev w = w\<lparr>trace := trace w @ [ev]\<rparr>"

definition log :: "level \<Rightarrow> string \<Rightarrow> arg list \<Rightarrow> 'a world_scheme \<Rightarrow> 'a world_scheme" where
  "log lvl fmt as w = emit (Log lvl fmt as) w"

definition advance :: "'a world_scheme \<Rightarrow> 'a world_scheme" where
  "advance w = w\<lparr>tick := Suc (tick w)\<rparr>"

text \<open>A file system operation that succeeded: the new file system, recorded.\<close>

definition commit :: "fsop \<Rightarrow> filesystem \<Rightarrow> 'a world_scheme \<Rightarrow> 'a world_scheme" where
  "commit op f w = emit (Fs op f) (advance (w\<lparr>fs := f\<rparr>))"

definition session_get :: "env \<Rightarrow> string \<Rightarrow> 'a world_scheme \<Rightarrow> (exn + response) \<times> 'a world_scheme" where
  "session_get env url w = (http env (tick w) url, emit (Get url) (advance w))"

definition raise_for_status :: "response \<Rightarrow> exn + unit" where
  "raise_for_status r =
     (if 400 \<le> status_code r \<and> status_code r < 600 then Inl RequestException else Inr ())"

definition path_exists :: "env \<Rightarrow> path \<Rightarrow> 'a world_scheme \<Rightarrow> (exn + bool) \<times> 'a world_scheme" where
  "path_exists env p w =
     (case fault env (tick w) of
        Some e \<Rightarrow> (Inl e, advance w)
      | None \<Rightarrow> (Inr (node_at (fs w) p \<noteq> None), advance w))"

text \<open>\<open>Path.mkdir(parents=True, exist_ok=True)\<close>: every missing directory on the way
  is created, outermost first; a file in the way raises.\<close>

fun mkdirs :: "env \<Rightarrow> path list \<Rightarrow> 'a world_scheme \<Rightarrow> (exn + unit) \<times> 'a world_scheme" where
  "mkdirs env [] w = (Inr (), w)"
| "mkdirs env (d # ds) w =
     (case node_at (fs w) d of
        Some Dir \<Rightarrow> mkdirs env ds w
      | Some (File _) \<Rightarrow> (Inl OSError, w)
      | None \<Rightarrow>
          (case fault env (tick w) of
             Some e \<Rightarrow> (Inl e, advance w)
           | None \<Rightarrow> mkdirs env ds (commit (Mkdir d) ((fs w)(d \<mapsto> Dir)) w)))"

definition ancestors :: "path \<Rightarrow> path list" where
  "ancestors p = map (\<lambda>i. Path (root p) (take i (segs p))) [1..<Suc (length (segs p))]"

definition mkdir_parents :: "env \<Rightarrow> path \<Rightarrow> 'a world_scheme \<Rightarrow> (exn + unit) \<times> 'a world_scheme" where
  "mkdir_parents env p w = mkdirs env (ancestors p) w"

text \<open>\<open>open(p, "wb")\<close>: the file is created or truncated.\<close>

definition open_wb :: "env \<Rightarrow> path \<Rightarrow> 'a world_scheme \<Rightarrow> (exn + unit) \<times> 'a world_scheme" where
  "open_wb env p w =
     (case fault env (tick w) of
        Some e \<Rightarrow> (Inl e, advance w)
      | None \<Rightarrow>
          if node_at (fs w) (parent p) \<noteq> Some Dir \<or> node_at (fs w) p = Some Dir
          then (Inl OSError, advance w)
          else (Inr (), commit (OpenW p) ((fs w)(p \<mapsto> File [])) w))"

definition content_at :: "filesystem \<Rightarrow> path \<Rightarrow> bytes" where
  "content_at f p = (case f p of Some (File d) \<Rightarrow> d | _ \<Rightarrow> [])"

definition write_bytes :: "env \<Rightarrow> path \<Rightarrow> bytes \<Rightarrow> 'a world_scheme \<Rightarrow> (exn + unit) \<times> 'a world_scheme" where
  "write_bytes env p d w =
     (case fault env (tick w) of
        Some e \<Rightarrow> (Inl e, advance w)
      | None \<Rightarrow> (Inr (), commit (Write p d) ((fs w)(p \<mapsto> File (content_at (fs w) p @ d))) w))"

definition close_file :: "path \<Rightarrow> 'a world_scheme \<Rightarrow> 'a world_scheme" where
  "close_file p w = emit (Fs (Close p) (fs w)) w"

text \<open>\<open>Path.rename\<close> on POSIX: the target is replaced in one step.\<close>

definition rename :: "env \<Rightarrow> path \<Rightarrow> path \<Rightarrow> 'a world_scheme \<Rightarrow> (exn + unit) \<times> 'a world_scheme" where
  "rename env src dst w =
     (case fault env (tick w) of
        Some e \<Rightarrow> (Inl e, advance w)
      | None \<Rightarrow>
          (case node_at (fs w) src of
             None \<Rightarrow> (Inl OSError, advance w)
           | Some n \<Rightarrow>
               if segs src = [] \<or> segs dst = [] \<or> (n \<noteq> Dir \<and> node_at (fs w) dst = Some Dir)
               then (Inl OSError, advance w)
               else (Inr (), commit (Rename src dst) ((fs w)(src := None, dst \<mapsto> n)) w)))"

text \<open>
  \<open>time.sleep\<close> converts its argument to a 64-bit count of nanoseconds and raises
  \<open>OverflowError\<close> when that does not fit, that is for a length beyond
  9223372036 seconds either way; then it refuses a negative length.
\<close>

definition sleep :: "env \<Rightarrow> int \<Rightarrow> 'a world_scheme \<Rightarrow> (exn + unit) \<times> 'a world_scheme" where
  "sleep env d w =
     (if d < - 9223372036 \<or> 9223372036 < d then (Inl OverflowError, w)
      else if d < 0 then (Inl ValueError, w)
      else case fault env (tick w) of
             Some e \<Rightarrow> (Inl e, advance w)
           | None \<Rightarrow> (Inr (), emit (Sleep d) (advance w)))"

definition logging :: "level \<Rightarrow> string \<Rightarrow> arg list \<Rightarrow> 'a world_scheme \<Rightarrow> (exn + unit) \<times> 'a world_scheme" where
  "logging lvl fmt as w = (Inr (), log lvl fmt as w)"

text \<open>\<open>try: m except Exception as e: h e\<close>; an interrupt is not an \<open>Exception\<close> and
  passes through.\<close>

definition try_except :: "('s \<Rightarrow> (exn + 'a) \<times> 's) \<Rightarrow> (exn \<Rightarrow> 's \<Rightarrow> (exn + 'a) \<times> 's)
    \<Rightarrow> 's \<Rightarrow> (exn + 'a) \<times> 's" where
  "try_except m h w =
     (case m w of
        (Inl e, w') \<Rightarrow> if is_Exception e then h e w' else (Inl e, w')
      | (Inr x, w') \<Rightarrow> (Inr x, w'))"

section \<open>Downloading and extracting\<close>

text \<open>The loop over the chunks of the response; an empty chunk is not written.\<close>

fun write_loop :: "env \<Rightarrow> path \<Rightarrow> bytes list \<Rightarrow> 'a world_scheme \<Rightarrow> (exn + unit) \<times> 'a world_scheme" where
  "write_loop env f [] w = (Inr (), w)"
| "write_loop env f (chunk # rest) w =
     (if chunk \<noteq> []
      then (case write_bytes env f chunk w of
              (Inl e, w') \<Rightarrow> (Inl e, w')
            | (Inr _, w') \<Rightarrow> write_loop env f rest w')
      else write_loop env f rest w)"

text \<open>Iterating over \<open>r.iter_content(...)\<close>: the chunks delivered are written, then the
  exception that ended the stream, if any, is raised.\<close>

definition write_stream :: "env \<Rightarrow> path \<Rightarrow> bytes list \<times> exn option
    \<Rightarrow> 'a world_scheme \<Rightarrow> (exn + unit) \<times> 'a world_scheme" where
  "write_stream env f it =
     seq (write_loop env f (fst it)) (\<lambda>_.
       case snd it of None \<Rightarrow> lift (Inr ()) | Some e \<Rightarrow> lift (Inl e))"

text \<open>The \<open>chunk_size\<close> argument of \<open>iter_content\<close>: \<open>1 << 20\<close>.\<close>

definition chunk_size :: nat where
  "chunk_size = push_bit 20 1"

text \<open>Lines 60 to 65 of \<open>download_zip\<close>: the \<open>with\<close> block that requests the
  archive and streams it into the temporary file.\<close>

definition fetch_to :: "env \<Rightarrow> string \<Rightarrow> path \<Rightarrow> 'a world_scheme \<Rightarrow> (exn + unit) \<times> 'a world_scheme" where
  "fetch_to env url tmp =
     seq (session_get env url) (\<lambda>r.
     seq (lift (raise_for_status r)) (\<lambda>_.
     seq (open_wb env tmp) (\<lambda>_.
       ensuring (write_stream env tmp (iter_content r chunk_size)) (close_file tmp))))"

text \<open>\<open>download_zip(session, url, dest)\<close>; the session is the environment.\<close>

definition download_zip :: "env \<Rightarrow> string \<Rightarrow> path \<Rightarrow> 'a world_scheme \<Rightarrow> (exn + path) \<times> 'a world_scheme" where
  "download_zip env url dest =
     seq (mkdir_parents env (parent dest)) (\<lambda>_.
     seq (lift (with_suffix dest ''.part'')) (\<lambda>tmp.
     seq (fetch_to env url tmp) (\<lambda>_.
     seq (rename env tmp dest) (\<lambda>_.
     lift (Inr dest)))))"

text \<open>
  \<open>zipfile\<close>: a member name is cut at slashes and its empty, \<open>.\<close> and \<open>..\<close>
  segments are dropped, so that every member lands below the output directory; a
  name that ends with a slash is a directory.  A member's content is written in
  one piece.
\<close>

definition member_segs :: "string \<Rightarrow> string list" where
  "member_segs fname =
     filter (\<lambda>x. x \<noteq> [] \<and> x \<noteq> ''.'' \<and> x \<noteq> ''..'') (split_on CHR ''/'' [] fname)"

definition extract_member :: "env \<Rightarrow> path \<Rightarrow> string \<times> bytes
    \<Rightarrow> 'a world_scheme \<Rightarrow> (exn + unit) \<times> 'a world_scheme" where
  "extract_member env out_dir m =
     (let target = Path (root out_dir) (segs out_dir @ member_segs (fst m))
      in seq (mkdir_parents env (parent target)) (\<lambda>_.
           if endswith (fst m) ''/'' then mkdir_parents env target
           else seq (open_wb env target) (\<lambda>_.
                  ensuring (write_bytes env target (snd m)) (close_file target))))"

fun extract_members :: "env \<Rightarrow> path \<Rightarrow> (string \<times> bytes) list
    \<Rightarrow> 'a world_scheme \<Rightarrow> (exn + unit) \<times> 'a world_scheme" where
  "extract_members env out_dir [] w = (Inr (), w)"
| "extract_members env out_dir (m # ms) w =
     (case extract_member env out_dir m w of
        (Inl e, w') \<Rightarrow> (Inl e, w')
      | (Inr _, w') \<Rightarrow> extract_members env out_dir ms w')"

text \<open>\<open>zipfile.ZipFile(str(zip_path))\<close>: the archive is read and decoded.\<close>

definition open_zip :: "env \<Rightarrow> path \<Rightarrow> 'a world_scheme \<Rightarrow> (exn + (string \<times> bytes) list) \<times> 'a world_scheme" where
  "open_zip env p w =
     (case fault env (tick w) of
        Some e \<Rightarrow> (Inl e, advance w)
      | None \<Rightarrow>
          (case node_at (fs w) p of
             Some (File d) \<Rightarrow> (unzip env d, advance w)
           | _ \<Rightarrow> (Inl OSError, advance w)))"

definition extract_zip :: "env \<Rightarrow> path \<Rightarrow> path \<Rightarrow> 'a world_scheme \<Rightarrow> (exn + unit) \<times> 'a world_scheme" where
  "extract_zip env zip_path out_dir =
     seq (mkdir_parents env out_dir) (\<lambda>_.
     seq (open_zip env zip_path) (\<lambda>zf.
     extract_members env out_dir zf))"

section \<open>Core poller\<close>

definition poll_once :: "env \<Rightarrow> string \<Rightarrow> 'a world_scheme \<Rightarrow> (exn + string option) \<times> 'a world_scheme" where
  "poll_once env url =
     seq (session_get env url) (\<lambda>resp.
     seq (lift (raise_for_status resp)) (\<lambda>_.
     lift (resolve_body (body_text resp))))"

section \<open>Main loop\<close>

definition ENG_URL :: string where
  "ENG_URL = ''http://data.gdeltproject.org/gdeltv2/lastupdate.txt''"

definition TRANS_URL :: string where
  "TRANS_URL = ''http://data.gdeltproject.org/gdeltv2/lastupdate-translation.txt''"

record args =
  output_root :: string
  interval :: int
  skip_extract :: bool
  raw_subdir_eng :: string
  raw_subdir_trans :: string
  csv_subdir_eng :: string
  csv_subdir_trans :: string
  retries :: int
  verbose :: bool
  ignore_malformed :: bool

text \<open>The variables of \<open>run\<close>, on top of the world they act on.\<close>

record state = world +
  seen_eng :: "string set"
  seen_trans :: "string set"
  backoff :: int

text \<open>The two rows of the tuple the \<open>for\<close> loop runs over.\<close>

datatype kind = ENG | TRANS

fun kind_name :: "kind \<Rightarrow> string" where
  "kind_name ENG = ''ENG''"
| "kind_name TRANS = ''TRANS''"

fun stream_url :: "kind \<Rightarrow> string" where
  "stream_url ENG = ENG_URL"
| "stream_url TRANS = TRANS_URL"

fun seen :: "kind \<Rightarrow> state \<Rightarrow> string set" where
  "seen ENG s = seen_eng s"
| "seen TRANS s = seen_trans s"

fun seen_add :: "kind \<Rightarrow> string \<Rightarrow> state \<Rightarrow> state" where
  "seen_add ENG name s = s\<lparr>seen_eng := insert name (seen_eng s)\<rparr>"
| "seen_add TRANS name s = s\<lparr>seen_trans := insert name (seen_trans s)\<rparr>"

fun raw_subdir :: "args \<Rightarrow> kind \<Rightarrow> string" where
  "raw_subdir a ENG = raw_subdir_eng a"
| "raw_subdir a TRANS = raw_subdir_trans a"

fun csv_subdir :: "args \<Rightarrow> kind \<Rightarrow> string" where
  "csv_subdir a ENG = csv_subdir_eng a"
| "csv_subdir a TRANS = csv_subdir_trans a"

definition zip_path_of :: "args \<Rightarrow> kind \<Rightarrow> string \<Rightarrow> path" where
  "zip_path_of a k name =
     pjoin (pjoin (pjoin (parse_path (output_root a)) (extract_year name)) (raw_subdir a k)) name"

definition out_dir_of :: "args \<Rightarrow> kind \<Rightarrow> string \<Rightarrow> path" where
  "out_dir_of a k name =
     pjoin (pjoin (parse_path (output_root a)) (extract_year name)) (csv_subdir a k)"

text \<open>Lines 143 to 152: extract unless skipped, then mark the name as seen.\<close>

definition extract_and_mark :: "env \<Rightarrow> args \<Rightarrow> kind \<Rightarrow> string \<Rightarrow> state \<Rightarrow> (exn + unit) \<times> state" where
  "extract_and_mark env a k name =
     seq (if \<not> skip_extract a
          then try_except
                 (seq (extract_zip env (zip_path_of a k name) (out_dir_of a k name)) (\<lambda>_.
                  logging INFO ''[%s] Extracted to %s''
                    [S (kind_name k), S (str_of_path (out_dir_of a k name))]))
                 (\<lambda>e. logging ERROR ''[%s] Extract fail: %s'' [S (kind_name k), E e])
          else lift (Inr ())) (\<lambda>_.
     (\<lambda>s. (Inr (), seen_add k name s)))"

text \<open>Lines 135 to 152: the download branch.  The handler's \<open>continue\<close> skips the
  extraction and the marking.\<close>

definition download_and_extract :: "env \<Rightarrow> args \<Rightarrow> kind \<Rightarrow> string \<Rightarrow> string
    \<Rightarrow> state \<Rightarrow> (exn + unit) \<times> state" where
  "download_and_extract env a k zip_link name =
     seq (logging INFO ''[%s] Downloading %s'' [S (kind_name k), S name]) (\<lambda>_.
     seq (try_except
            (seq (download_zip env zip_link (zip_path_of a k name)) (\<lambda>_.
             seq (logging INFO ''[%s] Downloaded'' [S (kind_name k)]) (\<lambda>_.
             lift (Inr True))))
            (\<lambda>e. seq (logging ERROR ''[%s] Failed to download %s - %s''
                         [S (kind_name k), S name, E e]) (\<lambda>_.
                  lift (Inr False)))) (\<lambda>downloaded.
     if downloaded then extract_and_mark env a k name else lift (Inr ())))"

text \<open>Lines 126 to 152: one resolved link.  \<open>continue\<close> ends the stream's turn
  normally.\<close>

definition handle_link :: "env \<Rightarrow> args \<Rightarrow> kind \<Rightarrow> string \<Rightarrow> state \<Rightarrow> (exn + unit) \<times> state" where
  "handle_link env a k zip_link s =
     (let name = safe_filename zip_link
      in if name \<in> seen k s then (Inr (), s)
         else seq (path_exists env (zip_path_of a k name)) (\<lambda>ex.
                if ex
                then seq (logging INFO ''[%s] ZIP already on disk, skipping download: %s''
                            [S (kind_name k), S name]) (\<lambda>_.
                     extract_and_mark env a k name)
                else download_and_extract env a k zip_link name) s)"

text \<open>Lines 117 to 152: the body of the \<open>for\<close> loop for one stream.  \<open>not zip_link\<close>
  holds for \<open>None\<close> and for the empty string.\<close>

definition process_stream :: "env \<Rightarrow> args \<Rightarrow> kind \<Rightarrow> state \<Rightarrow> (exn + unit) \<times> state" where
  "process_stream env a k =
     seq (if verbose a then logging DEBUG ''Polling %s'' [S (stream_url k)] else lift (Inr ())) (\<lambda>_.
     seq (poll_once env (stream_url k)) (\<lambda>zip_link.
       if zip_link = None \<or> zip_link = Some []
       then (if ignore_malformed a then lift (Inr ())
             else logging WARNING ''Unexpected %s content - skip'' [S (kind_name k)])
       else handle_link env a k (the zip_link)))"

text \<open>Lines 113 to 155: the body of the \<open>try\<close>.\<close>

definition try_body :: "env \<Rightarrow> args \<Rightarrow> state \<Rightarrow> (exn + unit) \<times> state" where
  "try_body env a =
     seq (process_stream env a ENG) (\<lambda>_.
     seq (process_stream env a TRANS) (\<lambda>_.
     seq (sleep env (interval a)) (\<lambda>_.
     (\<lambda>s. (Inr (), s\<lparr>backoff := interval a\<rparr>)))))"

text \<open>
  How one pass of \<open>while True\<close> ends: the loop goes on, \<open>sys.exit\<close> was called, or
  an exception raised inside a handler left \<open>run\<close>.
\<close>

datatype status = Running | Exited int | Uncaught exn

text \<open>Lines 112 to 167: one pass of the loop, with the three handlers in the
  source's order.\<close>

definition cycle :: "env \<Rightarrow> args \<Rightarrow> state \<Rightarrow> status \<times> state" where
  "cycle env a s =
     (case try_body env a s of
        (Inr _, s') \<Rightarrow> (Running, s')
      | (Inl e, s') \<Rightarrow>
          if retryable e
          then (let s1 = log WARNING ''Network/ZIP error: %s - backing off %.0f s''
                           [E e, N (backoff s')] s'
                in case sleep env (backoff s1) s1 of
                     (Inl e', s2) \<Rightarrow> (Uncaught e', s2)
                   | (Inr _, s2) \<Rightarrow> (Running, s2\<lparr>backoff := min (backoff s2 * 2) 1800\<rparr>))
          else if e = KeyboardInterrupt
          then (Exited 0, log INFO ''Interrupted - exiting.'' [] s')
          else (let s1 = log ERROR ''Unhandled error: %s'' [E e] s'
                in if \<not> ignore_malformed a then (Exited 1, s1)
                   else case sleep env (backoff s1) s1 of
                          (Inl e', s2) \<Rightarrow> (Uncaught e', s2)
                        | (Inr _, s2) \<Rightarrow> (Running, s2)))"

text \<open>The first \<open>n\<close> passes of \<open>while True\<close>, stopping when the process ends.\<close>

fun run_cycles :: "env \<Rightarrow> args \<Rightarrow> nat \<Rightarrow> state \<Rightarrow> status \<times> state" where
  "run_cycles env a 0 s = (Running, s)"
| "run_cycles env a (Suc n) s =
     (case cycle env a s of
        (Running, s') \<Rightarrow> run_cycles env a n s'
      | (st, s') \<Rightarrow> (st, s'))"

text \<open>The state \<open>run\<close> starts its loop in, on a given file system.\<close>

definition initial :: "args \<Rightarrow> filesystem \<Rightarrow> state" where
  "initial a f = \<lparr>fs = f, tick = 0, trace = [], seen_eng = {}, seen_trans = {},
                  backoff = interval a\<rparr>"


section \<open>Command line defaults\<close>

text \<open>The arguments \<open>get_args\<close> returns when the command line is empty.\<close>

definition default_args :: args where
  "default_args = \<lparr>output_root = ''data'', interval = 120, skip_extract = False,
     raw_subdir_eng = ''rawdata_en'', raw_subdir_trans = ''rawdata_tr'',
     csv_subdir_eng = ''csv_en'', csv_subdir_trans = ''csv_tr'',
     retries = 3, verbose = False, ignore_malformed = False\<rparr>"

section \<open>Reading a trace\<close>

text \<open>What a file system operation does to the file system it is applied to, and
  when it can succeed.\<close>

fun apply_op :: "fsop \<Rightarrow> filesystem \<Rightarrow> filesystem" where
  "apply_op (Mkdir d) f = f(d \<mapsto> Dir)"
| "apply_op (OpenW p) f = f(p \<mapsto> File [])"
| "apply_op (Write p d) f = f(p \<mapsto> File (content_at f p @ d))"
| "apply_op (Close p) f = f"
| "apply_op (Rename src dst) f = f(src := None, dst := f src)"

fun valid_op :: "fsop \<Rightarrow> filesystem \<Rightarrow> bool" where
  "valid_op (Mkdir d) f = (node_at f d = None)"
| "valid_op (OpenW p) f = (node_at f p \<noteq> Some Dir)"
| "valid_op (Rename src dst) f = (segs src \<noteq> [] \<and> segs dst \<noteq> [] \<and> f src \<noteq> None)"
| "valid_op _ f = True"

text \<open>\<open>follows f evs f'\<close>: the events \<open>evs\<close> lead from the file system \<open>f\<close> to \<open>f'\<close>, each
  recorded snapshot being the result of its operation on the file system before.\<close>

fun follows :: "filesystem \<Rightarrow> event list \<Rightarrow> filesystem \<Rightarrow> bool" where
  "follows f [] f' = (f' = f)"
| "follows f (Fs op g # evs) f' = (g = apply_op op f \<and> valid_op op f \<and> follows g evs f')"
| "follows f (_ # evs) f' = follows f evs f'"

text \<open>\<open>extends Q w w'\<close>: the world \<open>w'\<close> comes after \<open>w\<close> by events that all satisfy \<open>Q\<close>,
  and nothing but the world has changed (the variables of \<open>run\<close> are the same).\<close>

definition extends :: "(event \<Rightarrow> bool) \<Rightarrow> 'a world_scheme \<Rightarrow> 'a world_scheme \<Rightarrow> bool" where
  "extends Q w w' =
     (\<exists>new. trace w' = trace w @ new \<and> follows (fs w) new (fs w') \<and> (\<forall>ev\<in>set new. Q ev)
        \<and> world.more w' = world.more w)"

definition pres :: "('s \<Rightarrow> 's \<Rightarrow> bool) \<Rightarrow> ('s \<Rightarrow> 'r \<times> 's) \<Rightarrow> bool" where
  "pres R m = (\<forall>w. R w (snd (m w)))"

text \<open>The events since a given earlier trace.\<close>

definition since :: "event list \<Rightarrow> event list \<Rightarrow> event list" where
  "since old tr = drop (length old) tr"

text \<open>A completed download of the archive at \<open>p\<close> is the rename onto \<open>p\<close>.\<close>

fun is_download :: "path \<Rightarrow> event \<Rightarrow> bool" where
  "is_download p (Fs (Rename src dst) f) = (dst = p)"
| "is_download p _ = False"

definition downloads :: "path \<Rightarrow> event list \<Rightarrow> nat" where
  "downloads p tr = length (filter (is_download p) tr)"

fun is_Get :: "event \<Rightarrow> bool" where
  "is_Get (Get u) = True"
| "is_Get _ = False"

fun is_Sleep :: "event \<Rightarrow> bool" where
  "is_Sleep (Sleep d) = True"
| "is_Sleep _ = False"


fun snapshots :: "event list \<Rightarrow> filesystem list" where
  "snapshots [] = []"
| "snapshots (Fs op f # evs) = f # snapshots evs"
| "snapshots (_ # evs) = snapshots evs"



definition below :: "path \<Rightarrow> path \<Rightarrow> bool" where
  "below dir p = (root p = root dir \<and> take (length (segs dir)) (segs p) = segs dir)"

fun unzip_event :: "path \<Rightarrow> event \<Rightarrow> bool" where
  "unzip_event out_dir (Fs (Mkdir d) f) = True"
| "unzip_event out_dir (Fs (OpenW p) f) = below out_dir p"
| "unzip_event out_dir (Fs (Write p d) f) = below out_dir p"
| "unzip_event out_dir (Fs (Close p) f) = below out_dir p"
| "unzip_event out_dir _ = False"

fun is_Log :: "event \<Rightarrow> bool" where
  "is_Log (Log l f as) = True"
| "is_Log _ = False"

fun is_Rename :: "event \<Rightarrow> bool" where
  "is_Rename (Fs (Rename src dst) f) = True"
| "is_Rename _ = False"



text \<open>
  \<open>once p w w'\<close>: between \<open>w\<close> and \<open>w'\<close> the archive at \<open>p\<close> was not downloaded if it
  was on disk, and was downloaded at most once otherwise; a file that was there or
  was downloaded is still there.
\<close>

definition once :: "path \<Rightarrow> 'a world_scheme \<Rightarrow> 'a world_scheme \<Rightarrow> bool" where
  "once p w w' =
     (\<exists>new. trace w' = trace w @ new
        \<and> (fs w p \<noteq> None \<longrightarrow> fs w' p \<noteq> None \<and> downloads p new = 0)
        \<and> (fs w p = None \<longrightarrow> downloads p new \<le> 1 \<and> (downloads p new = 1 \<longrightarrow> fs w' p \<noteq> None)))"



definition keeps_vars :: "state \<Rightarrow> state \<Rightarrow> bool" where
  "keeps_vars s s' =
     (seen_eng s' = seen_eng s \<and> seen_trans s' = seen_trans s \<and> backoff s' = backoff s)"

definition seen_grows :: "state \<Rightarrow> state \<Rightarrow> bool" where
  "seen_grows s s' = (seen_eng s \<subseteq> seen_eng s' \<and> seen_trans s \<subseteq> seen_trans s')"

section \<open>Example environments\<close>




definition malformed_response :: response where
  "malformed_response = \<lparr>status_code = 200, body_text = ''<html>moved</html>'',
                          iter_content = (\<lambda>n. ([], None))\<rparr>"


text \<open>Both pointers answer with a body that has no archive line.\<close>

definition env_malformed :: env where
  "env_malformed = \<lparr>http = (\<lambda>t url. Inr malformed_response), fault = (\<lambda>t. None),
                     unzip = (\<lambda>d. Inl BadZipFile)\<rparr>"


text \<open>\<open>steps w new w'\<close>: the world \<open>w'\<close> comes after \<open>w\<close> by exactly the events \<open>new\<close>.\<close>

definition steps :: "'a world_scheme \<Rightarrow> event list \<Rightarrow> 'a world_scheme \<Rightarrow> bool" where
  "steps w new w' =
     (trace w' = trace w @ new \<and> follows (fs w) new (fs w') \<and> world.more w' = world.more w)"










section \<open>Facts about the string operations\<close>

lemma endswith_iff: "endswith s suf \<longleftrightarrow> (\<exists>p. s = p @ suf)"
proof
  assume "endswith s suf"
  then have "s = take (length s - length suf) s @ suf"
    by (metis append_take_drop_id endswith_def)
  then show "\<exists>p. s = p @ suf" ..
next
  assume "\<exists>p. s = p @ suf"
  then show "endswith s suf" by (auto simp: endswith_def)
qed

lemma takeWhile_rev_all:
  "\<forall>c\<in>set t. P c \<Longrightarrow> takeWhile P (rev t @ ys) = rev t @ takeWhile P ys"
  by (rule takeWhile_append2) simp

lemma takeWhile_rev_all':
  "\<forall>c\<in>set t. P c \<Longrightarrow> takeWhile P (rev t) = rev t"
  using takeWhile_rev_all [of t P "[]"] by simp

lemma split_from_nonempty:
  "acc \<noteq> [] \<or> (\<exists>c\<in>set s. \<not> isspace c) \<Longrightarrow> split_from acc s \<noteq> []"
  by (induction s arbitrary: acc) auto

text \<open>The last token of a string that ends in a non-space character is its longest
  suffix free of whitespace.\<close>

lemma last_split_from:
  "s \<noteq> [] \<Longrightarrow> \<not> isspace (last s) \<Longrightarrow>
   last (split_from acc s) =
     (if \<forall>c\<in>set s. \<not> isspace c then rev acc @ s
      else rev (takeWhile (\<lambda>c. \<not> isspace c) (rev s)))"
proof (induction s arbitrary: acc)
  case Nil
  then show ?case by simp
next
  case (Cons c cs)
  show ?case
  proof (cases "cs = []")
    case True
    with Cons.prems show ?thesis by simp
  next
    case False
    with Cons.prems have l: "\<not> isspace (last cs)" by simp
    have ne: "split_from [] cs \<noteq> []"
      using False l by (intro split_from_nonempty) (metis last_in_set)
    note IH = Cons.IH [OF False l]
    have cut: "takeWhile (\<lambda>c. \<not> isspace c) (rev cs @ [c]) = takeWhile (\<lambda>c. \<not> isspace c) (rev cs)"
      if "\<not> (\<forall>c\<in>set cs. \<not> isspace c)"
    proof -
      from that obtain x where "x \<in> set (rev cs)" "\<not> \<not> isspace x" by auto
      then show ?thesis by (rule takeWhile_append1)
    qed
    show ?thesis
    proof (cases "isspace c")
      case True
      have "last (split_from acc (c # cs)) = last (split_from [] cs)"
        using True ne by simp
      also have "\<dots> = (if \<forall>c\<in>set cs. \<not> isspace c then cs
                       else rev (takeWhile (\<lambda>c. \<not> isspace c) (rev cs)))"
        using IH [of "[]"] by simp
      also have "\<dots> = rev (takeWhile (\<lambda>c. \<not> isspace c) (rev (c # cs)))"
      proof (cases "\<forall>c\<in>set cs. \<not> isspace c")
        case True
        then show ?thesis using \<open>isspace c\<close> by (simp add: takeWhile_rev_all)
      next
        case False
        then show ?thesis using cut by auto
      qed
      finally show ?thesis using True by simp
    next
      case False
      show ?thesis
      proof (cases "\<forall>c\<in>set cs. \<not> isspace c")
        case True
        then show ?thesis using IH [of "c # acc"] \<open>\<not> isspace c\<close> by simp
      next
        case False
        then show ?thesis using IH [of "c # acc"] cut \<open>\<not> isspace c\<close> by auto
      qed
    qed
  qed
qed

lemma split_ws_nonempty: "s \<noteq> [] \<Longrightarrow> \<not> isspace (last s) \<Longrightarrow> split_ws s \<noteq> []"
  unfolding split_ws_def by (intro split_from_nonempty) (metis last_in_set)

lemma last_split_ws:
  assumes "s \<noteq> []" "\<not> isspace (last s)"
  shows "last (split_ws s) = rev (takeWhile (\<lambda>c. \<not> isspace c) (rev s))"
  unfolding split_ws_def using last_split_from [OF assms, of "[]"]
  by (auto simp: takeWhile_rev_all')

lemma trailing_run:
  fixes s :: string
  defines "t \<equiv> rev (takeWhile (\<lambda>c. \<not> isspace c) (rev s))"
  shows "\<exists>pre. s = pre @ t \<and> (\<forall>c\<in>set t. \<not> isspace c) \<and> (pre = [] \<or> isspace (last pre))"
proof -
  let ?pre = "rev (dropWhile (\<lambda>c. \<not> isspace c) (rev s))"
  have "rev s = takeWhile (\<lambda>c. \<not> isspace c) (rev s) @ dropWhile (\<lambda>c. \<not> isspace c) (rev s)"
    by simp
  then have "rev (rev s) = ?pre @ t" unfolding t_def by (metis rev_append)
  then have 1: "s = ?pre @ t" by simp
  have 2: "\<forall>c\<in>set t. \<not> isspace c" unfolding t_def by (auto dest: set_takeWhileD)
  have 3: "?pre = [] \<or> isspace (last ?pre)"
    by (metis (mono_tags, lifting) hd_dropWhile last_rev rev_is_Nil_conv)
  from 1 2 3 show ?thesis by blast
qed

lemma trailing_run_unique:
  assumes "s = pre @ t" "\<forall>c\<in>set t. \<not> isspace c" "pre = [] \<or> isspace (last pre)"
  shows "rev (takeWhile (\<lambda>c. \<not> isspace c) (rev s)) = t"
proof (cases "pre = []")
  case True
  with assms show ?thesis by (simp add: takeWhile_rev_all')
next
  case False
  with assms have "isspace (last pre)" by simp
  then have "takeWhile (\<lambda>c. \<not> isspace c) (rev pre) = []"
    using False by (cases pre rule: rev_cases) auto
  then show ?thesis using assms(1,2)
    by (simp add: takeWhile_rev_all)
qed

lemma suffix_no_space: "\<forall>c\<in>set GKG_SUFFIX. \<not> isspace c"
  by (simp add: GKG_SUFFIX_def isspace_def)

lemma endswith_suffix_last:
  assumes "endswith l GKG_SUFFIX"
  shows "l \<noteq> [] \<and> \<not> isspace (last l)"
proof -
  from assms obtain p where p: "l = p @ GKG_SUFFIX" by (auto simp: endswith_iff)
  show ?thesis using p by (simp add: GKG_SUFFIX_def isspace_def)
qed

text \<open>The token a matching line yields.\<close>

lemma matching_line_token:
  assumes "endswith l GKG_SUFFIX"
  shows "split_ws l \<noteq> []"
    and "\<exists>pre. l = pre @ last (split_ws l) \<and> (pre = [] \<or> isspace (last pre))"
    and "\<forall>c\<in>set (last (split_ws l)). \<not> isspace c"
    and "endswith (last (split_ws l)) GKG_SUFFIX"
proof -
  note ne = endswith_suffix_last [OF assms]
  let ?t = "rev (takeWhile (\<lambda>c. \<not> isspace c) (rev l))"
  have t: "last (split_ws l) = ?t" using ne by (simp add: last_split_ws)
  show "split_ws l \<noteq> []" using ne by (simp add: split_ws_nonempty)
  from trailing_run [of l]
  show "\<exists>pre. l = pre @ last (split_ws l) \<and> (pre = [] \<or> isspace (last pre))"
    unfolding t by blast
  show "\<forall>c\<in>set (last (split_ws l)). \<not> isspace c"
    unfolding t by (auto dest: set_takeWhileD)
  from assms obtain p where p: "l = p @ GKG_SUFFIX" by (auto simp: endswith_iff)
  have "takeWhile (\<lambda>c. \<not> isspace c) (rev GKG_SUFFIX @ rev p)
        = rev GKG_SUFFIX @ takeWhile (\<lambda>c. \<not> isspace c) (rev p)"
    using suffix_no_space by (rule takeWhile_rev_all)
  then have "?t = rev (takeWhile (\<lambda>c. \<not> isspace c) (rev p)) @ GKG_SUFFIX"
    by (simp add: p)
  then show "endswith (last (split_ws l)) GKG_SUFFIX"
    unfolding t endswith_iff by blast
qed

lemma scan_lines_total: "\<exists>r. scan_lines ls = Inr r"
proof (induction ls)
  case Nil
  then show ?case by simp
next
  case (Cons l ls)
  show ?case
  proof (cases "endswith l GKG_SUFFIX")
    case True
    then have "split_ws l \<noteq> []" by (rule matching_line_token)
    then show ?thesis using True by (cases "split_ws l") auto
  next
    case False
    then show ?thesis using Cons.IH by simp
  qed
qed

lemma scan_lines_None:
  "scan_lines ls = Inr None \<longleftrightarrow> (\<forall>l\<in>set ls. \<not> endswith l GKG_SUFFIX)"
  by (induction ls) (auto split: list.splits)

lemma scan_lines_Some:
  "scan_lines ls = Inr (Some t) \<Longrightarrow>
   \<exists>before l after. ls = before @ l # after \<and> (\<forall>x\<in>set before. \<not> endswith x GKG_SUFFIX)
      \<and> endswith l GKG_SUFFIX \<and> t = last (split_ws l)"
proof (induction ls)
  case Nil
  then show ?case by simp
next
  case (Cons a ls)
  show ?case
  proof (cases "endswith a GKG_SUFFIX")
    case True
    with Cons.prems have "t = last (split_ws a)" by (auto split: list.splits)
    with True have "a # ls = [] @ a # ls \<and> (\<forall>x\<in>set []. \<not> endswith x GKG_SUFFIX)
      \<and> endswith a GKG_SUFFIX \<and> t = last (split_ws a)" by simp
    then show ?thesis by blast
  next
    case False
    with Cons obtain before l after where
      "ls = before @ l # after" "\<forall>x\<in>set before. \<not> endswith x GKG_SUFFIX"
      "endswith l GKG_SUFFIX" "t = last (split_ws l)" by auto
    with False have "a # ls = (a # before) @ l # after
      \<and> (\<forall>x\<in>set (a # before). \<not> endswith x GKG_SUFFIX)
      \<and> endswith l GKG_SUFFIX \<and> t = last (split_ws l)" by simp
    then show ?thesis by blast
  qed
qed

lemma scan_lines_first_match:
  "\<forall>x\<in>set before. \<not> endswith x GKG_SUFFIX \<Longrightarrow> endswith l GKG_SUFFIX \<Longrightarrow>
   scan_lines (before @ l # after) = Inr (Some (last (split_ws l)))"
proof (induction before)
  case Nil
  then have "split_ws l \<noteq> []" by (intro matching_line_token)
  with Nil show ?case by (cases "split_ws l") auto
next
  case (Cons a before)
  then show ?case by simp
qed

lemma strip_trimmed:
  assumes "strip s \<noteq> []"
  shows "\<not> isspace (hd (strip s)) \<and> \<not> isspace (last (strip s))"
proof -
  let ?a = "dropWhile isspace s"
  let ?b = "dropWhile isspace (rev ?a)"
  from assms have b: "?b \<noteq> []" by (simp add: strip_def)
  have a: "?a \<noteq> []"
  proof
    assume "?a = []"
    then have "?b = []" by (simp only: rev.simps(1) dropWhile.simps(1))
    with b show False ..
  qed
  have l: "\<not> isspace (last (strip s))"
    using b by (simp add: strip_def last_rev hd_dropWhile)
  have "\<not> isspace (last (rev ?a))" using a by (simp add: last_rev hd_dropWhile)
  moreover have "last ?b = last (rev ?a)"
    using b by (metis (no_types) append_Nil2 last_appendR takeWhile_dropWhile_id)
  ultimately have "\<not> isspace (hd (strip s))"
    using b by (simp add: strip_def hd_rev)
  with l show ?thesis by simp
qed

lemma strip_id: "s \<noteq> [] \<Longrightarrow> \<not> isspace (hd s) \<Longrightarrow> \<not> isspace (last s) \<Longrightarrow> strip s = s"
proof -
  assume s: "s \<noteq> []" and h: "\<not> isspace (hd s)" and l: "\<not> isspace (last s)"
  have 1: "dropWhile isspace s = s" using h by (simp add: dropWhile_eq_self_iff)
  have "\<not> isspace (hd (rev s))" using s l by (simp add: hd_rev)
  then have 2: "dropWhile isspace (rev s) = rev s" by (simp add: dropWhile_eq_self_iff)
  show ?thesis by (simp add: strip_def 1 2)
qed

lemma linebreak_isspace: "is_linebreak c \<Longrightarrow> isspace c"
  by (auto simp: is_linebreak_def isspace_def Let_def)

lemma splitlines_from_single:
  "\<forall>c\<in>set s. \<not> is_linebreak c \<Longrightarrow>
   splitlines_from acc s = (if acc = [] \<and> s = [] then [] else [rev acc @ s])"
  by (induction s arbitrary: acc) auto

lemma splitlines_single:
  "s \<noteq> [] \<Longrightarrow> \<forall>c\<in>set s. \<not> is_linebreak c \<Longrightarrow> splitlines s = [s]"
  by (simp add: splitlines_def splitlines_from_single)


lemmas string_defs = isspace_def is_linebreak_def splitlines_def strip_def split_ws_def
  endswith_def rsplit1_last_def safe_filename_def extract_year_def GKG_SUFFIX_def
  pointer_lines_def resolve_body_def

lemma resolve_body_total: "\<exists>r. resolve_body body = Inr r"
  unfolding resolve_body_def by (rule scan_lines_total)

lemma pointer_lines_trimmed:
  "\<forall>l\<in>set (pointer_lines body). l \<noteq> [] \<and> \<not> isspace (hd l) \<and> \<not> isspace (last l)"
proof
  fix l assume "l \<in> set (pointer_lines body)"
  then obtain ln where "l = strip ln" "strip ln \<noteq> []"
    unfolding pointer_lines_def by auto
  then show "l \<noteq> [] \<and> \<not> isspace (hd l) \<and> \<not> isspace (last l)"
    using strip_trimmed [of ln] by simp
qed

lemma resolve_body_None:
  "resolve_body body = Inr None
      \<longleftrightarrow> (\<forall>l\<in>set (pointer_lines body). \<not> endswith l GKG_SUFFIX)"
  unfolding resolve_body_def by (rule scan_lines_None)

lemma resolve_body_Some:
  assumes "resolve_body body = Inr (Some t)"
  shows "\<exists>before l after pre.
            pointer_lines body = before @ l # after
            \<and> (\<forall>x\<in>set before. \<not> endswith x GKG_SUFFIX) \<and> endswith l GKG_SUFFIX
            \<and> t = last (split_ws l) \<and> l = pre @ t \<and> (pre = [] \<or> isspace (last pre))
            \<and> (\<forall>c\<in>set t. \<not> isspace c) \<and> endswith t GKG_SUFFIX"
proof -
  from assms have "scan_lines (pointer_lines body) = Inr (Some t)"
    by (simp only: resolve_body_def)
  from scan_lines_Some [OF this] obtain before l after where
    l: "pointer_lines body = before @ l # after" "\<forall>x\<in>set before. \<not> endswith x GKG_SUFFIX"
      "endswith l GKG_SUFFIX" "t = last (split_ws l)"
    by blast
  from matching_line_token(2) [OF l(3)] obtain pre where
    p: "l = pre @ t" "pre = [] \<or> isspace (last pre)" unfolding l(4) by blast
  have c: "\<forall>c\<in>set t. \<not> isspace c"
    unfolding l(4) by (rule matching_line_token(3) [OF l(3)])
  have e: "endswith t GKG_SUFFIX"
    unfolding l(4) by (rule matching_line_token(4) [OF l(3)])
  show ?thesis
    apply (rule exI [of _ before], rule exI [of _ l], rule exI [of _ after], rule exI [of _ pre])
    using l p c e apply (intro conjI)
    apply assumption+
    done
qed


lemma last_token_eq:
  assumes "pre = [] \<or> isspace (last pre)" "\<forall>c\<in>set url. \<not> isspace c" "endswith url GKG_SUFFIX"
  shows "last (split_ws (pre @ url)) = url" and "endswith (pre @ url) GKG_SUFFIX"
proof -
  from assms(3) obtain p where p: "url = p @ GKG_SUFFIX" unfolding endswith_iff ..
  then have "pre @ url = (pre @ p) @ GKG_SUFFIX" by simp
  then show e: "endswith (pre @ url) GKG_SUFFIX" unfolding endswith_iff ..
  note ne = endswith_suffix_last [OF e]
  have "last (split_ws (pre @ url)) = rev (takeWhile (\<lambda>c. \<not> isspace c) (rev (pre @ url)))"
    using ne by (intro last_split_ws) simp_all
  also have "\<dots> = url"
    by (rule trailing_run_unique [OF refl assms(2) assms(1)])
  finally show "last (split_ws (pre @ url)) = url" .
qed

lemma resolve_body_first_match:
  assumes "pointer_lines body = before @ (pre @ url) # after"
    "\<forall>x\<in>set before. \<not> endswith x GKG_SUFFIX"
    "pre = [] \<or> isspace (last pre)" "\<forall>c\<in>set url. \<not> isspace c" "endswith url GKG_SUFFIX"
  shows "resolve_body body = Inr (Some url)"
proof -
  note t = last_token_eq [OF assms(3,4,5)]
  have "scan_lines (before @ (pre @ url) # after) = Inr (Some (last (split_ws (pre @ url))))"
    by (rule scan_lines_first_match [OF assms(2) t(2)])
  then show ?thesis unfolding resolve_body_def assms(1) t(1) .
qed

lemma resolve_body_fields:
  assumes "sz \<noteq> []" "\<forall>c\<in>set (sz @ hash @ url). \<not> isspace c" "endswith url GKG_SUFFIX"
  shows "resolve_body (sz @ '' '' @ hash @ '' '' @ url) = Inr (Some url)"
proof -
  let ?l = "sz @ '' '' @ hash @ '' '' @ url"
  have sp: "\<not> is_linebreak CHR '' ''" "isspace CHR '' ''"
    by (simp_all add: is_linebreak_def isspace_def)
  have nb: "\<forall>c\<in>set ?l. \<not> is_linebreak c"
  proof
    fix c assume "c \<in> set ?l"
    then have "c = CHR '' '' \<or> c \<in> set (sz @ hash @ url)" by auto
    then show "\<not> is_linebreak c" using sp(1) assms(2) linebreak_isspace by blast
  qed
  have u: "url \<noteq> [] \<and> \<not> isspace (last url)" using assms(3) by (rule endswith_suffix_last)
  have "hd ?l = hd sz" using assms(1) by simp
  moreover have "hd sz \<in> set (sz @ hash @ url)" using assms(1) by simp
  ultimately have h: "\<not> isspace (hd ?l)" using assms(2) by metis
  have "last ?l = last url" using u by simp
  then have l: "\<not> isspace (last ?l)" using u by metis
  have ne: "?l \<noteq> []" using assms(1) by simp
  have 1: "splitlines ?l = [?l]" using ne nb by (rule splitlines_single)
  have 2: "strip ?l = ?l" using ne h l by (rule strip_id)
  have pl: "pointer_lines ?l = [] @ ((sz @ '' '' @ hash @ '' '') @ url) # []"
    unfolding pointer_lines_def 1 using 2 ne by simp
  have pre: "sz @ '' '' @ hash @ '' '' = [] \<or> isspace (last (sz @ '' '' @ hash @ '' ''))"
    using sp(2) by simp
  have cs: "\<forall>c\<in>set url. \<not> isspace c" using assms(2) by simp
  have b: "\<forall>x\<in>set ([] :: string list). \<not> endswith x GKG_SUFFIX" by simp
  show ?thesis by (rule resolve_body_first_match [OF pl b pre cs assms(3)])
qed

lemma poll_once_body:
  assumes "http env (tick w) url = Inr r" "raise_for_status r = Inr ()"
  shows "fst (poll_once env url w) = resolve_body (body_text r)"
  using assms by (simp add: poll_once_def seq_def lift_def session_get_def)


text \<open>
  C3.  For every pointer body: resolving never raises; the lines scanned are non-empty
  and trimmed; the result is none exactly when no line ends with the suffix;
  otherwise it is the last whitespace-separated token of the first line that ends
  with the suffix (the token is what follows the last whitespace of the line), so
  that the leading fields of a line \<open><size> <hash> <url>\<close> are ignored; and
  \<open>poll_once\<close> returns what the body of a successful response resolves to, which
  depends on the body text alone.
\<close>

theorem poll_once_resolves:
  "(\<exists>r. resolve_body body = Inr r)
   \<and> (\<forall>l\<in>set (pointer_lines body). l \<noteq> [] \<and> \<not> isspace (hd l) \<and> \<not> isspace (last l))
   \<and> (resolve_body body = Inr None \<longleftrightarrow> (\<forall>l\<in>set (pointer_lines body). \<not> endswith l GKG_SUFFIX))
   \<and> (\<forall>t. resolve_body body = Inr (Some t) \<longrightarrow>
         (\<exists>before l after pre.
            pointer_lines body = before @ l # after
            \<and> (\<forall>x\<in>set before. \<not> endswith x GKG_SUFFIX) \<and> endswith l GKG_SUFFIX
            \<and> t = last (split_ws l) \<and> l = pre @ t \<and> (pre = [] \<or> isspace (last pre))
            \<and> (\<forall>c\<in>set t. \<not> isspace c) \<and> endswith t GKG_SUFFIX))
   \<and> (\<forall>before pre url after.
         pointer_lines body = before @ (pre @ url) # after
         \<and> (\<forall>x\<in>set before. \<not> endswith x GKG_SUFFIX)
         \<and> (pre = [] \<or> isspace (last pre)) \<and> (\<forall>c\<in>set url. \<not> isspace c)
         \<and> endswith url GKG_SUFFIX
         \<longrightarrow> resolve_body body = Inr (Some url))
   \<and> (\<forall>sz hash url.
         sz \<noteq> [] \<and> (\<forall>c\<in>set (sz @ hash @ url). \<not> isspace c) \<and> endswith url GKG_SUFFIX
         \<longrightarrow> resolve_body (sz @ '' '' @ hash @ '' '' @ url) = Inr (Some url))
   \<and> (\<forall>(env :: env) url (w :: state) r.
         http env (tick w) url = Inr r \<and> raise_for_status r = Inr ()
         \<longrightarrow> fst (poll_once env url w) = resolve_body (body_text r))"
proof (intro conjI allI impI)
  show "\<exists>r. resolve_body body = Inr r" by (rule resolve_body_total)
  show "\<forall>l\<in>set (pointer_lines body). l \<noteq> [] \<and> \<not> isspace (hd l) \<and> \<not> isspace (last l)"
    by (rule pointer_lines_trimmed)
  show "resolve_body body = Inr None \<longleftrightarrow> (\<forall>l\<in>set (pointer_lines body). \<not> endswith l GKG_SUFFIX)"
    by (rule resolve_body_None)
next
  fix t assume "resolve_body body = Inr (Some t)"
  then show "\<exists>before l after pre.
            pointer_lines body = before @ l # after
            \<and> (\<forall>x\<in>set before. \<not> endswith x GKG_SUFFIX) \<and> endswith l GKG_SUFFIX
            \<and> t = last (split_ws l) \<and> l = pre @ t \<and> (pre = [] \<or> isspace (last pre))
            \<and> (\<forall>c\<in>set t. \<not> isspace c) \<and> endswith t GKG_SUFFIX"
    by (rule resolve_body_Some)
next
  fix before pre url after
  assume a: "pointer_lines body = before @ (pre @ url) # after
         \<and> (\<forall>x\<in>set before. \<not> endswith x GKG_SUFFIX)
         \<and> (pre = [] \<or> isspace (last pre)) \<and> (\<forall>c\<in>set url. \<not> isspace c)
         \<and> endswith url GKG_SUFFIX"
  show "resolve_body body = Inr (Some url)"
    by (rule resolve_body_first_match [of body before pre url after]) (use a in blast)+
next
  fix sz hash url :: string
  assume a: "sz \<noteq> [] \<and> (\<forall>c\<in>set (sz @ hash @ url). \<not> isspace c) \<and> endswith url GKG_SUFFIX"
  show "resolve_body (sz @ '' '' @ hash @ '' '' @ url) = Inr (Some url)"
    by (rule resolve_body_fields) (use a in blast)+
next
  fix env :: env and url and w :: state and r
  assume a: "http env (tick w) url = Inr r \<and> raise_for_status r = Inr ()"
  show "fst (poll_once env url w) = resolve_body (body_text r)"
    by (rule poll_once_body) (use a in blast)+
qed


theorem poll_once_resolves_witness:
  "\<exists>before l after pre.
     pointer_lines (''# newest'' @ [CHR 0x0D, CHR 0x0A]
       @ ''  1234 abcd1234 http://host/gdeltv2/20250724144500.gkg.csv.zip '' @ [CHR 0x0A]
       @ ''99 ff http://host/gdeltv2/20250724150000.gkg.csv.zip'') = before @ l # after
     \<and> (\<forall>x\<in>set before. \<not> endswith x GKG_SUFFIX) \<and> endswith l GKG_SUFFIX
     \<and> ''http://host/gdeltv2/20250724144500.gkg.csv.zip'' = last (split_ws l)
     \<and> l = pre @ ''http://host/gdeltv2/20250724144500.gkg.csv.zip''
     \<and> (pre = [] \<or> isspace (last pre))
     \<and> (\<forall>c\<in>set ''http://host/gdeltv2/20250724144500.gkg.csv.zip''. \<not> isspace c)
     \<and> endswith ''http://host/gdeltv2/20250724144500.gkg.csv.zip'' GKG_SUFFIX"
proof -
  let ?body = "''# newest'' @ [CHR 0x0D, CHR 0x0A]
       @ ''  1234 abcd1234 http://host/gdeltv2/20250724144500.gkg.csv.zip '' @ [CHR 0x0A]
       @ ''99 ff http://host/gdeltv2/20250724150000.gkg.csv.zip''"
  have r: "resolve_body ?body = Inr (Some ''http://host/gdeltv2/20250724144500.gkg.csv.zip'')"
    by (simp add: string_defs)
  show ?thesis
    by (rule poll_once_resolves [of ?body, THEN conjunct2, THEN conjunct2, THEN conjunct2,
          THEN conjunct1, rule_format, OF r])
qed


section \<open>Facts about names and paths\<close>











section \<open>Worlds that come after each other\<close>

lemma follows_append:
  "follows f (xs @ ys) f'' \<longleftrightarrow> (\<exists>f'. follows f xs f' \<and> follows f' ys f'')"
  by (induction f xs f'' rule: follows.induct) auto

lemma extends_refl: "extends Q w w"
  by (simp add: extends_def)

lemma extends_trans:
  assumes "extends Q w w'" "extends Q w' w''"
  shows "extends Q w w''"
proof -
  from assms(1) obtain n1 where 1: "trace w' = trace w @ n1" "follows (fs w) n1 (fs w')"
    "\<forall>ev\<in>set n1. Q ev" "world.more w' = world.more w" unfolding extends_def by blast
  from assms(2) obtain n2 where 2: "trace w'' = trace w' @ n2" "follows (fs w') n2 (fs w'')"
    "\<forall>ev\<in>set n2. Q ev" "world.more w'' = world.more w'" unfolding extends_def by blast
  have "trace w'' = trace w @ (n1 @ n2)" using 1(1) 2(1) by simp
  moreover have "follows (fs w) (n1 @ n2) (fs w'')"
    unfolding follows_append using 1(2) 2(2) by blast
  moreover have "\<forall>ev\<in>set (n1 @ n2). Q ev" using 1(3) 2(3) by auto
  moreover have "world.more w'' = world.more w" using 1(4) 2(4) by simp
  ultimately show ?thesis unfolding extends_def by blast
qed

lemma extends_mono:
  assumes "extends Q w w'" "\<And>ev. Q ev \<Longrightarrow> Q' ev"
  shows "extends Q' w w'"
  using assms unfolding extends_def by blast


subsection \<open>Relations kept by sequencing\<close>

lemma pres_seq:
  assumes "transp R" "pres R m" "\<And>x. pres R (f x)"
  shows "pres R (seq m f)"
proof (unfold pres_def, rule allI)
  fix w
  obtain r w' where m: "m w = (r, w')" by (cases "m w")
  have 1: "R w w'" using assms(2) m unfolding pres_def by (metis snd_conv)
  show "R w (snd (seq m f w))"
  proof (cases r)
    case (Inl e)
    then show ?thesis using 1 m by (simp add: seq_def)
  next
    case (Inr x)
    have "R w' (snd (f x w'))" using assms(3) unfolding pres_def by blast
    with 1 have "R w (snd (f x w'))" using assms(1) by (blast dest: transpD)
    then show ?thesis using m Inr by (simp add: seq_def)
  qed
qed

lemma pres_lift: "reflp R \<Longrightarrow> pres R (lift r)"
  by (simp add: pres_def lift_def reflpD)

lemma pres_ensuring:
  assumes "transp R" "pres R m" "\<And>w. R w (fin w)"
  shows "pres R (ensuring m fin)"
proof (unfold pres_def, rule allI)
  fix w
  obtain r w' where m: "m w = (r, w')" by (cases "m w")
  have "R w w'" using assms(2) m unfolding pres_def by (metis snd_conv)
  with assms(3) [of w'] have "R w (fin w')" using assms(1) by (blast dest: transpD)
  then show "R w (snd (ensuring m fin w))" using m by (simp add: ensuring_def)
qed

lemma pres_try_except:
  assumes "transp R" "pres R m" "\<And>e. pres R (h e)"
  shows "pres R (try_except m h)"
proof (unfold pres_def, rule allI)
  fix w
  obtain r w' where m: "m w = (r, w')" by (cases "m w")
  have 1: "R w w'" using assms(2) m unfolding pres_def by (metis snd_conv)
  show "R w (snd (try_except m h w))"
  proof (cases r)
    case (Inr x)
    then show ?thesis using 1 m by (simp add: try_except_def)
  next
    case (Inl e)
    have "R w' (snd (h e w'))" using assms(3) unfolding pres_def by blast
    with 1 have "R w (snd (h e w'))" using assms(1) by (blast dest: transpD)
    then show ?thesis using m Inl 1 by (simp add: try_except_def)
  qed
qed

lemma pres_if: "pres R m \<Longrightarrow> pres R n \<Longrightarrow> pres R (if b then m else n)"
  by simp

lemma presD: "pres R m \<Longrightarrow> m w = (r, w') \<Longrightarrow> R w w'"
  unfolding pres_def by (metis snd_conv)

lemma transp_extends: "transp (extends Q)"
  by (rule transpI) (rule extends_trans)

lemma reflp_extends: "reflp (extends Q)"
  by (rule reflpI) (rule extends_refl)

subsection \<open>The primitive operations\<close>

lemma extends_emit:
  assumes "Q ev" "\<And>op g. ev \<noteq> Fs op g"
  shows "extends Q w (emit ev w)"
proof -
  have "follows (fs w) [ev] (fs w)" using assms(2) by (cases ev) auto
  then show ?thesis using assms(1) unfolding extends_def emit_def by simp
qed

lemma extends_advance: "extends Q w (advance w)"
  by (simp add: extends_def advance_def)

lemma extends_commit:
  assumes "Q (Fs op (apply_op op (fs w)))" "valid_op op (fs w)"
  shows "extends Q w (commit op (apply_op op (fs w)) w)"
  using assms unfolding extends_def commit_def emit_def advance_def by simp

lemma extends_log: "Q (Log l f as) \<Longrightarrow> extends Q w (log l f as w)"
  unfolding log_def by (rule extends_emit) simp_all

lemma pres_logging: "Q (Log l f as) \<Longrightarrow> pres (extends Q) (logging l f as)"
  by (simp add: pres_def logging_def extends_log)

lemma pres_session_get: "Q (Get url) \<Longrightarrow> pres (extends Q) (session_get env url)"
proof -
  assume q: "Q (Get url)"
  have "extends Q w (emit (Get url) (advance w))" for w :: "'a world_scheme"
    by (rule extends_trans [OF extends_advance]) (rule extends_emit, use q in simp_all)
  then show ?thesis by (simp add: pres_def session_get_def)
qed

lemma pres_path_exists: "pres (extends Q) (path_exists env p)"
  by (auto simp: pres_def path_exists_def extends_advance split: option.splits)

lemma pres_sleep: "Q (Sleep d) \<Longrightarrow> pres (extends Q) (sleep env d)"
proof -
  assume q: "Q (Sleep d)"
  have "extends Q w (emit (Sleep d) (advance w))" for w :: "'a world_scheme"
    by (rule extends_trans [OF extends_advance]) (rule extends_emit, use q in simp_all)
  then show ?thesis
    by (auto simp: pres_def sleep_def extends_advance extends_refl split: option.splits)
qed

lemma pres_open_zip: "pres (extends Q) (open_zip env p)"
  by (auto simp: pres_def open_zip_def extends_advance split: option.splits node.splits)

lemma pres_open_wb:
  assumes "\<And>g. Q (Fs (OpenW p) g)"
  shows "pres (extends Q) (open_wb env p)"
proof (unfold pres_def, rule allI)
  fix w :: "'a world_scheme"
  have "extends Q w (commit (OpenW p) (apply_op (OpenW p) (fs w)) w)"
    if "node_at (fs w) p \<noteq> Some Dir"
    by (rule extends_commit) (use assms that in simp_all)
  then show "extends Q w (snd (open_wb env p w))"
    by (auto simp: open_wb_def extends_advance split: option.splits)
qed

lemma pres_write_bytes:
  assumes "\<And>g. Q (Fs (Write p d) g)"
  shows "pres (extends Q) (write_bytes env p d)"
proof (unfold pres_def, rule allI)
  fix w :: "'a world_scheme"
  have "extends Q w (commit (Write p d) (apply_op (Write p d) (fs w)) w)"
    by (rule extends_commit) (use assms in simp_all)
  then show "extends Q w (snd (write_bytes env p d w))"
    by (auto simp: write_bytes_def extends_advance split: option.splits)
qed

lemma extends_close_file:
  assumes "\<And>g. Q (Fs (Close p) g)"
  shows "extends Q w (close_file p w)"
  using assms unfolding extends_def close_file_def emit_def by simp


lemma pres_mkdirs:
  assumes "\<And>d g. d \<in> set ds \<Longrightarrow> Q (Fs (Mkdir d) g)"
  shows "pres (extends Q) (mkdirs env ds)"
proof -
  have "extends Q w (snd (mkdirs env ds w))" for w :: "'a world_scheme"
    using assms
  proof (induction ds arbitrary: w)
    case Nil
    then show ?case by (simp add: extends_refl)
  next
    case (Cons d ds)
    have IH: "extends Q w' (snd (mkdirs env ds w'))" for w' :: "'a world_scheme"
      by (rule Cons.IH) (use Cons.prems in simp)
    have c: "extends Q w (commit (Mkdir d) ((fs w)(d \<mapsto> Dir)) w)" if "node_at (fs w) d = None"
    proof -
      have "extends Q w (commit (Mkdir d) (apply_op (Mkdir d) (fs w)) w)"
        by (rule extends_commit) (use Cons.prems that in simp_all)
      then show ?thesis by simp
    qed
    show ?case
      using IH c by (auto simp: extends_advance extends_refl split: option.splits node.splits
          intro: extends_trans)
  qed
  then show ?thesis by (simp add: pres_def)
qed

lemma pres_mkdir_parents:
  assumes "\<And>d g. d \<in> set (ancestors p) \<Longrightarrow> Q (Fs (Mkdir d) g)"
  shows "pres (extends Q) (mkdir_parents env p)"
  using pres_mkdirs [of "ancestors p" Q env] assms by (simp add: pres_def mkdir_parents_def)


subsection \<open>Downloading\<close>





subsection \<open>Extracting\<close>

lemma below_member: "below out_dir (Path (root out_dir) (segs out_dir @ xs))"
  by (simp add: below_def)

lemma pres_extract_member:
  assumes "\<And>ev. unzip_event out_dir ev \<Longrightarrow> Q ev"
  shows "pres (extends Q) (extract_member env out_dir m)"
  unfolding extract_member_def Let_def
  by (intro pres_seq pres_if pres_ensuring transp_extends pres_mkdir_parents pres_open_wb
        pres_write_bytes extends_close_file assms) (simp_all add: below_member)

lemma pres_extract_members:
  assumes "\<And>ev. unzip_event out_dir ev \<Longrightarrow> Q ev"
  shows "pres (extends Q) (extract_members env out_dir ms)"
proof -
  have "extends Q w (snd (extract_members env out_dir ms w))" for w :: "'a world_scheme"
  proof (induction ms arbitrary: w)
    case Nil
    then show ?case by (simp add: extends_refl)
  next
    case (Cons m ms)
    obtain r w1 where w: "extract_member env out_dir m w = (r, w1)"
      by (cases "extract_member env out_dir m w")
    have 1: "extends Q w w1"
      by (rule presD [OF pres_extract_member w]) (rule assms)
    show ?case
    proof (cases r)
      case (Inl e)
      then show ?thesis using w 1 by simp
    next
      case (Inr u)
      have "extends Q w (snd (extract_members env out_dir ms w1))"
        by (rule extends_trans [OF 1 Cons.IH])
      then show ?thesis using w Inr by simp
    qed
  qed
  then show ?thesis by (simp add: pres_def)
qed

lemma pres_extract_zip:
  assumes "\<And>ev. unzip_event out_dir ev \<Longrightarrow> Q ev"
  shows "pres (extends Q) (extract_zip env zip_path out_dir)"
  unfolding extract_zip_def
  by (intro pres_seq transp_extends pres_mkdir_parents pres_open_zip pres_extract_members assms)
     simp_all

subsection \<open>Polling\<close>

lemma pres_poll_once: "Q (Get url) \<Longrightarrow> pres (extends Q) (poll_once env url)"
  unfolding poll_once_def
  by (intro pres_seq transp_extends pres_session_get pres_lift reflp_extends)


section \<open>The variables of the loop\<close>



lemma pres_weaken: "pres R m \<Longrightarrow> (\<And>s s'. R s s' \<Longrightarrow> R' s s') \<Longrightarrow> pres R' m"
  by (simp add: pres_def)

lemma pres_logging_weak:
  assumes "\<And>s s'. extends (\<lambda>ev. \<not> is_Rename ev) s s' \<Longrightarrow> R s s'"
  shows "pres R (logging l f as)"
proof -
  have "pres (extends (\<lambda>ev. \<not> is_Rename ev)) (logging l f as)"
    by (rule pres_logging) simp
  then show ?thesis by (rule pres_weaken) (rule assms)
qed

lemma unzip_not_rename: "unzip_event d ev \<Longrightarrow> \<not> is_Rename ev"
  by (induction d ev rule: unzip_event.induct) auto

lemma unzip_not_get: "unzip_event d ev \<Longrightarrow> \<not> is_Get ev"
  by (induction d ev rule: unzip_event.induct) auto

text \<open>
  A reflexive and transitive relation that every step without a rename keeps, that
  marking a name keeps, and that a download keeps when the archive is not on disk, is
  kept by each part of the loop body.
\<close>

lemma pres_extract_and_mark:
  assumes r: "reflp R" and t: "transp R"
    and w: "\<And>s s'. extends (\<lambda>ev. \<not> is_Rename ev) s s' \<Longrightarrow> R s s'"
    and m: "\<And>s. R s (seen_add k name s)"
  shows "pres R (extract_and_mark env a k name)"
proof -
  have "pres (extends (\<lambda>ev. \<not> is_Rename ev))
          (extract_zip env (zip_path_of a k name) (out_dir_of a k name) :: state \<Rightarrow> _)"
    by (rule pres_extract_zip) (rule unzip_not_rename)
  then have ex: "pres R (extract_zip env (zip_path_of a k name) (out_dir_of a k name))"
    by (rule pres_weaken) (rule w)
  have lg: "pres R (logging l f as)" for l f as
    by (rule pres_logging_weak [OF w])
  have mk: "pres R (\<lambda>s. (Inr (), seen_add k name s))"
    by (simp add: pres_def m)
  show ?thesis
    unfolding extract_and_mark_def
    by (intro pres_seq pres_if pres_try_except t ex lg mk pres_lift r)
qed

lemma pres_download_and_extract:
  assumes r: "reflp R" and t: "transp R"
    and w: "\<And>s s'. extends (\<lambda>ev. \<not> is_Rename ev) s s' \<Longrightarrow> R s s'"
    and m: "\<And>s. R s (seen_add k name s)"
    and d: "\<And>s. node_at (fs s) (zip_path_of a k name) = None \<Longrightarrow>
              R s (snd (download_zip env link (zip_path_of a k name) s))"
    and n: "node_at (fs s) (zip_path_of a k name) = None"
  shows "R s (snd (download_and_extract env a k link name s))"
proof -
  let ?dest = "zip_path_of a k name"
  have lg: "pres R (logging l f as)" for l f as
    by (rule pres_logging_weak [OF w])
  have em: "pres R (extract_and_mark env a k name)"
    by (rule pres_extract_and_mark [OF r t w m])
  let ?s1 = "log INFO ''[%s] Downloading %s'' [S (kind_name k), S name] s"
  have 1: "R s ?s1" by (rule w, rule extends_log) simp
  have n1: "node_at (fs ?s1) ?dest = None" using n by (simp add: log_def emit_def)
  obtain rd s2 where dl: "download_zip env link ?dest ?s1 = (rd, s2)"
    by (cases "download_zip env link ?dest ?s1")
  have 2: "R ?s1 s2" using d [OF n1] dl by simp
  have rest: "pres R (\<lambda>s. (seq (logging INFO ''[%s] Downloaded'' [S (kind_name k)]) (\<lambda>_.
             lift (Inr True :: exn + bool))) s)"
    by (intro pres_seq t lg pres_lift r)
  have h: "pres R (seq (logging ERROR ''[%s] Failed to download %s - %s''
                         [S (kind_name k), S name, E e]) (\<lambda>_.
                  lift (Inr False :: exn + bool)))" for e
    by (intro pres_seq t lg pres_lift r)
  have fin: "pres R (\<lambda>s. (if b then extract_and_mark env a k name else lift (Inr ())) s)" for b
    by (cases b) (simp_all add: em pres_lift r)
  have 3: "R s2 (snd (seq (try_except
            (seq (download_zip env link ?dest) (\<lambda>_.
             seq (logging INFO ''[%s] Downloaded'' [S (kind_name k)]) (\<lambda>_.
             lift (Inr True))))
            (\<lambda>e. seq (logging ERROR ''[%s] Failed to download %s - %s''
                         [S (kind_name k), S name, E e]) (\<lambda>_.
                  lift (Inr False)))) (\<lambda>downloaded.
     if downloaded then extract_and_mark env a k name else lift (Inr ())) ?s1))"
  proof (cases rd)
    case (Inr x)
    let ?s3 = "log INFO ''[%s] Downloaded'' [S (kind_name k)] s2"
    have a: "R s2 ?s3" by (rule w, rule extends_log) simp
    have b: "R ?s3 (snd (extract_and_mark env a k name ?s3))"
      using em by (simp add: pres_def)
    have "R s2 (snd (extract_and_mark env a k name ?s3))"
      using a b t by (blast dest: transpD)
    then show ?thesis
      using dl Inr by (simp add: seq_def try_except_def logging_def lift_def)
  next
    case (Inl e)
    show ?thesis
    proof (cases "is_Exception e")
      case True
      let ?s3 = "log ERROR ''[%s] Failed to download %s - %s'' [S (kind_name k), S name, E e] s2"
      have a: "R s2 ?s3" by (rule w, rule extends_log) simp
      show ?thesis
        using dl Inl True a by (simp add: seq_def try_except_def logging_def lift_def)
    next
      case False
      have "R s2 s2" using r by (rule reflpD)
      then show ?thesis
        using dl Inl False by (simp add: seq_def try_except_def logging_def lift_def)
    qed
  qed
  have "R s (snd (seq (try_except
            (seq (download_zip env link ?dest) (\<lambda>_.
             seq (logging INFO ''[%s] Downloaded'' [S (kind_name k)]) (\<lambda>_.
             lift (Inr True))))
            (\<lambda>e. seq (logging ERROR ''[%s] Failed to download %s - %s''
                         [S (kind_name k), S name, E e]) (\<lambda>_.
                  lift (Inr False)))) (\<lambda>downloaded.
     if downloaded then extract_and_mark env a k name else lift (Inr ())) ?s1))"
    using 1 2 3 t by (blast dest: transpD)
  then show ?thesis
    by (simp add: download_and_extract_def seq_def [of "logging _ _ _"] logging_def)
qed


lemma pres_handle_link:
  assumes r: "reflp R" and t: "transp R"
    and w: "\<And>s s'. extends (\<lambda>ev. \<not> is_Rename ev) s s' \<Longrightarrow> R s s'"
    and m: "\<And>name s. R s (seen_add k name s)"
    and d: "\<And>s. node_at (fs s) (zip_path_of a k (safe_filename link)) = None \<Longrightarrow>
              R s (snd (download_zip env link (zip_path_of a k (safe_filename link)) s))"
  shows "pres R (handle_link env a k link)"
proof (unfold pres_def, rule allI)
  fix s
  let ?name = "safe_filename link"
  let ?dest = "zip_path_of a k ?name"
  show "R s (snd (handle_link env a k link s))"
  proof (cases "?name \<in> seen k s")
    case True
    have "R s s" by (rule reflpD [OF r])
    then show ?thesis using True by (simp add: handle_link_def)
  next
    case False
    have adv: "R s (advance s)" by (rule w) (rule extends_advance)
    have tr: "R x z" if "R x y" "R y z" for x y z
      using that t by (blast dest: transpD)
    show ?thesis
    proof (cases "fault env (tick s)")
      case (Some e)
      then show ?thesis using False adv
        by (simp add: handle_link_def seq_def path_exists_def)
    next
      case None
      show ?thesis
      proof (cases "node_at (fs s) ?dest = None")
        case True
        then have n: "node_at (fs (advance s)) ?dest = None" by (simp add: advance_def)
        have "R (advance s) (snd (download_and_extract env a k link ?name (advance s)))"
          by (rule pres_download_and_extract [OF r t w m d n])
        with adv have "R s (snd (download_and_extract env a k link ?name (advance s)))"
          by (rule tr)
        then show ?thesis using False None True
          by (simp add: handle_link_def Let_def seq_def [of "path_exists _ _"] path_exists_def)
      next
        case ex: False
        have "pres R (seq (logging INFO ''[%s] ZIP already on disk, skipping download: %s''
                            [S (kind_name k), S ?name]) (\<lambda>_.
                     extract_and_mark env a k ?name))"
          by (intro pres_seq t pres_logging_weak w pres_extract_and_mark r m)
        then have "R (advance s) (snd (seq (logging INFO ''[%s] ZIP already on disk, skipping download: %s''
                            [S (kind_name k), S ?name]) (\<lambda>_.
                     extract_and_mark env a k ?name) (advance s)))"
          by (simp add: pres_def)
        then have "R s (snd (seq (logging INFO ''[%s] ZIP already on disk, skipping download: %s''
                            [S (kind_name k), S ?name]) (\<lambda>_.
                     extract_and_mark env a k ?name) (advance s)))"
          by (rule tr [OF adv])
        then show ?thesis using False None ex
          by (simp add: handle_link_def Let_def seq_def [of "path_exists _ _"] path_exists_def)
      qed
    qed
  qed
qed


lemma pres_process_stream:
  assumes r: "reflp R" and t: "transp R"
    and w: "\<And>s s'. extends (\<lambda>ev. \<not> is_Rename ev) s s' \<Longrightarrow> R s s'"
    and m: "\<And>name s. R s (seen_add k name s)"
    and d: "\<And>link s. node_at (fs s) (zip_path_of a k (safe_filename link)) = None \<Longrightarrow>
              R s (snd (download_zip env link (zip_path_of a k (safe_filename link)) s))"
  shows "pres R (process_stream env a k)"
proof -
  have "pres (extends (\<lambda>ev. \<not> is_Rename ev)) (poll_once env (stream_url k) :: state \<Rightarrow> _)"
    by (rule pres_poll_once) simp
  then have po: "pres R (poll_once env (stream_url k))"
    by (rule pres_weaken) (rule w)
  have hl: "pres R (handle_link env a k link)" for link
    by (rule pres_handle_link [OF r t w m d])
  show ?thesis
    unfolding process_stream_def
    by (intro pres_seq pres_if t po hl pres_logging_weak w pres_lift r)
qed

lemma pres_sleep_weak:
  assumes "\<And>s s'. extends (\<lambda>ev. \<not> is_Rename ev) s s' \<Longrightarrow> R s s'"
  shows "pres R (sleep env d)"
proof -
  have "pres (extends (\<lambda>ev. \<not> is_Rename ev)) (sleep env d)"
    by (rule pres_sleep) simp
  then show ?thesis by (rule pres_weaken) (rule assms)
qed

lemma pres_try_body:
  assumes r: "reflp R" and t: "transp R"
    and w: "\<And>s s'. extends (\<lambda>ev. \<not> is_Rename ev) s s' \<Longrightarrow> R s s'"
    and m: "\<And>k name s. R s (seen_add k name s)"
    and d: "\<And>k link s. node_at (fs s) (zip_path_of a k (safe_filename link)) = None \<Longrightarrow>
              R s (snd (download_zip env link (zip_path_of a k (safe_filename link)) s))"
    and b: "\<And>s v. R s (s\<lparr>backoff := v\<rparr>)"
  shows "pres R (try_body env a)"
proof -
  have ps: "pres R (process_stream env a k)" for k
    by (rule pres_process_stream [OF r t w m d])
  have set: "pres R (\<lambda>s. (Inr (), s\<lparr>backoff := interval a\<rparr>))"
    by (simp add: pres_def b)
  show ?thesis
    unfolding try_body_def
    by (intro pres_seq t ps pres_sleep_weak w set)
qed


lemma pres_cycle:
  assumes r: "reflp R" and t: "transp R"
    and w: "\<And>s s'. extends (\<lambda>ev. \<not> is_Rename ev) s s' \<Longrightarrow> R s s'"
    and m: "\<And>k name s. R s (seen_add k name s)"
    and d: "\<And>k link s. node_at (fs s) (zip_path_of a k (safe_filename link)) = None \<Longrightarrow>
              R s (snd (download_zip env link (zip_path_of a k (safe_filename link)) s))"
    and b: "\<And>s v. R s (s\<lparr>backoff := v\<rparr>)"
  shows "pres R (cycle env a)"
proof (unfold pres_def, rule allI)
  fix s
  obtain rt s1 where tb: "try_body env a s = (rt, s1)" by (cases "try_body env a s")
  have 1: "R s s1" by (rule presD [OF pres_try_body [OF r t w m d b] tb])
  have lg: "R x (log l f as x)" for x l f as
    by (rule w, rule extends_log) simp
  have sl: "R x (snd (sleep env v x))" for x v
  proof -
    have "pres R (sleep env v)" by (rule pres_sleep_weak) (rule w)
    then show ?thesis by (simp add: pres_def)
  qed
  have tr: "R x z" if "R x y" "R y z" for x y z
    using that t by (blast dest: transpD)
  show "R s (snd (cycle env a s))"
  proof (cases rt)
    case (Inr u)
    then show ?thesis using tb 1 by (simp add: cycle_def)
  next
    case (Inl e)
    show ?thesis
    proof (cases "retryable e")
      case True
      let ?s1 = "log WARNING ''Network/ZIP error: %s - backing off %.0f s''
                           [E e, N (backoff s1)] s1"
      obtain rs s2 where sp: "sleep env (backoff ?s1) ?s1 = (rs, s2)"
        by (cases "sleep env (backoff ?s1) ?s1")
      have "R ?s1 s2" using sl [of ?s1 "backoff ?s1"] by (simp add: sp)
      then have 2: "R s s2" by (rule tr [OF tr [OF 1 lg]])
      have 3: "R s (s2\<lparr>backoff := v\<rparr>)" for v by (rule tr [OF 2 b])
      show ?thesis using tb Inl True sp 2 3
        by (cases rs) (simp_all add: cycle_def Let_def)
    next
      case False
      show ?thesis
      proof (cases "e = KeyboardInterrupt")
        case True
        have "R s (log INFO ''Interrupted - exiting.'' [] s1)" by (rule tr [OF 1 lg])
        then show ?thesis using tb Inl False True
          by (simp add: cycle_def)
      next
        case ne: False
        let ?s1 = "log ERROR ''Unhandled error: %s'' [E e] s1"
        obtain rs s2 where sp: "sleep env (backoff ?s1) ?s1 = (rs, s2)"
          by (cases "sleep env (backoff ?s1) ?s1")
        have 2: "R s ?s1" by (rule tr [OF 1 lg])
        have "R ?s1 s2" using sl [of ?s1 "backoff ?s1"] by (simp add: sp)
        then have 3: "R s s2" by (rule tr [OF 2])
        show ?thesis using tb Inl False ne sp 2 3
          by (cases rs) (simp_all add: cycle_def Let_def)
      qed
    qed
  qed
qed

lemma pres_run_cycles:
  assumes r: "reflp R" and t: "transp R"
    and w: "\<And>s s'. extends (\<lambda>ev. \<not> is_Rename ev) s s' \<Longrightarrow> R s s'"
    and m: "\<And>k name s. R s (seen_add k name s)"
    and d: "\<And>k link s. node_at (fs s) (zip_path_of a k (safe_filename link)) = None \<Longrightarrow>
              R s (snd (download_zip env link (zip_path_of a k (safe_filename link)) s))"
    and b: "\<And>s v. R s (s\<lparr>backoff := v\<rparr>)"
  shows "R s (snd (run_cycles env a n s))"
proof (induction n arbitrary: s)
  case 0
  have "R s s" by (rule reflpD [OF r])
  then show ?case by simp
next
  case (Suc n)
  obtain st s1 where c: "cycle env a s = (st, s1)" by (cases "cycle env a s")
  have 1: "R s s1" by (rule presD [OF pres_cycle [OF r t w m d b] c])
  show ?case
  proof (cases st)
    case Running
    have "R s (snd (run_cycles env a n s1))"
      using 1 Suc.IH [of s1] t by (blast dest: transpD)
    then show ?thesis using c Running by simp
  next
    case (Exited x)
    then show ?thesis using c 1 by simp
  next
    case (Uncaught x)
    then show ?thesis using c 1 by simp
  qed
qed


section \<open>The backoff interval\<close>















subsection \<open>The network is down\<close>











section \<open>Exceptions the scheduler does not recognise\<close>







lemma malformed_body_resolves: "resolve_body (body_text malformed_response) = Inr None"
  by (simp add: malformed_response_def string_defs)





section \<open>A pointer without an archive line\<close>

lemma poll_once_state: "snd (poll_once env url w) = emit (Get url) (advance w)"
  by (simp add: poll_once_def seq_def lift_def session_get_def split: sum.splits)

lemma process_stream_malformed:
  fixes s :: state and a :: args and k :: kind
  defines "s0 \<equiv> (if verbose a then log DEBUG ''Polling %s'' [S (stream_url k)] s else s)"
  assumes p: "fst (poll_once env (stream_url k) s0) = Inr None"
  shows "process_stream env a k s =
     (Inr (), if ignore_malformed a then emit (Get (stream_url k)) (advance s0)
              else log WARNING ''Unexpected %s content - skip'' [S (kind_name k)]
                     (emit (Get (stream_url k)) (advance s0)))"
proof -
  have po: "poll_once env (stream_url k) s0 = (Inr None, emit (Get (stream_url k)) (advance s0))"
    using p poll_once_state [of env "stream_url k" s0]
    by (cases "poll_once env (stream_url k) s0") simp
  have "process_stream env a k s =
      seq (poll_once env (stream_url k)) (\<lambda>zip_link.
       if zip_link = None \<or> zip_link = Some []
       then (if ignore_malformed a then lift (Inr ())
             else logging WARNING ''Unexpected %s content - skip'' [S (kind_name k)])
       else handle_link env a k (the zip_link)) s0"
    by (simp add: process_stream_def s0_def seq_def logging_def lift_def)
  also have "\<dots> = (Inr (), if ignore_malformed a then emit (Get (stream_url k)) (advance s0)
              else log WARNING ''Unexpected %s content - skip'' [S (kind_name k)]
                     (emit (Get (stream_url k)) (advance s0)))"
    by (simp add: seq_def po lift_def logging_def)
  finally show ?thesis .
qed

text \<open>
  C5, as the code has it.  When the pointer resolver returns none, the stream's turn
  ends normally, so that the pass goes on with the next stream: the file system,
  the seen sets and the backoff interval are unchanged, and the only events are
  the request for the pointer (after the debug line of a verbose run) and, when
  malformed-tolerance is not configured, one warning.  With tolerance the stream is
  skipped silently; without it the stream is skipped as well.
\<close>

theorem malformed_pointer_skipped:
  "fst (poll_once env (stream_url k)
          (if verbose a then log DEBUG ''Polling %s'' [S (stream_url k)] s else s)) = Inr None
   \<longrightarrow> fst (process_stream env a k s) = Inr ()
     \<and> fs (snd (process_stream env a k s)) = fs s
     \<and> keeps_vars s (snd (process_stream env a k s))
     \<and> since (trace s) (trace (snd (process_stream env a k s)))
         = (if verbose a then [Log DEBUG ''Polling %s'' [S (stream_url k)]] else [])
           @ [Get (stream_url k)]
           @ (if ignore_malformed a then []
              else [Log WARNING ''Unexpected %s content - skip'' [S (kind_name k)]])"
proof
  assume p: "fst (poll_once env (stream_url k)
          (if verbose a then log DEBUG ''Polling %s'' [S (stream_url k)] s else s)) = Inr None"
  note ps = process_stream_malformed [OF p]
  show "fst (process_stream env a k s) = Inr ()
     \<and> fs (snd (process_stream env a k s)) = fs s
     \<and> keeps_vars s (snd (process_stream env a k s))
     \<and> since (trace s) (trace (snd (process_stream env a k s)))
         = (if verbose a then [Log DEBUG ''Polling %s'' [S (stream_url k)]] else [])
           @ [Get (stream_url k)]
           @ (if ignore_malformed a then []
              else [Log WARNING ''Unexpected %s content - skip'' [S (kind_name k)]])"
    unfolding ps
    by (simp add: keeps_vars_def since_def log_def emit_def advance_def)
qed

theorem malformed_pointer_skipped_witness:
  "fst (poll_once env_malformed (stream_url ENG) (initial default_args Map.empty)) = Inr None
   \<and> fst (process_stream env_malformed default_args ENG (initial default_args Map.empty)) = Inr ()
   \<and> trace (snd (process_stream env_malformed default_args ENG (initial default_args Map.empty)))
       = [Get ENG_URL, Log WARNING ''Unexpected %s content - skip'' [S ''ENG'']]"
proof -
  let ?s = "initial default_args Map.empty"
  have v: "\<not> verbose default_args" "\<not> ignore_malformed default_args"
    by (simp_all add: default_args_def)
  have p: "fst (poll_once env_malformed (stream_url ENG) ?s) = Inr None"
    by (simp add: poll_once_def seq_def lift_def session_get_def raise_for_status_def
        env_malformed_def malformed_body_resolves)
       (simp add: malformed_response_def)
  then have p': "fst (poll_once env_malformed (stream_url ENG)
          (if verbose default_args then log DEBUG ''Polling %s'' [S (stream_url ENG)] ?s else ?s))
      = Inr None" using v by simp
  note t = malformed_pointer_skipped [of env_malformed ENG default_args ?s, rule_format, OF p']
  have 1: "fst (process_stream env_malformed default_args ENG ?s) = Inr ()"
    using t by (rule conjunct1)
  have "since (trace ?s) (trace (snd (process_stream env_malformed default_args ENG ?s)))
      = [Get ENG_URL, Log WARNING ''Unexpected %s content - skip'' [S ''ENG'']]"
    using t v by simp
  then have 2: "trace (snd (process_stream env_malformed default_args ENG ?s))
       = [Get ENG_URL, Log WARNING ''Unexpected %s content - skip'' [S ''ENG'']]"
    by (simp add: since_def initial_def)
  from p 1 2 show ?thesis by (intro conjI)
qed

text \<open>
  The claim as stated fails: without malformed-tolerance (the default) a malformed
  pointer is not fatal.  Both streams log a warning and are skipped, the pass
  completes with its sleep, and the loop is still running.
\<close>

theorem malformed_pointer_counterexample:
  "\<not> ignore_malformed default_args
   \<and> fst (poll_once env_malformed ENG_URL (initial default_args Map.empty)) = Inr None
   \<and> cycle env_malformed default_args (initial default_args Map.empty)
       = (Running,
          \<lparr>fs = Map.empty, tick = 3,
           trace = [Get ENG_URL, Log WARNING ''Unexpected %s content - skip'' [S ''ENG''],
                    Get TRANS_URL, Log WARNING ''Unexpected %s content - skip'' [S ''TRANS''],
                    Sleep 120],
           seen_eng = {}, seen_trans = {}, backoff = 120\<rparr>)"
proof -
  have 1: "\<not> ignore_malformed default_args" by (simp add: default_args_def)
  have 2: "fst (poll_once env_malformed ENG_URL (initial default_args Map.empty)) = Inr None"
    by (simp add: poll_once_def seq_def lift_def session_get_def raise_for_status_def
        env_malformed_def malformed_body_resolves)
       (simp add: malformed_response_def)
  have r: "raise_for_status malformed_response = Inr ()"
    by (simp add: raise_for_status_def malformed_response_def)
  have 3: "cycle env_malformed default_args (initial default_args Map.empty)
       = (Running,
          \<lparr>fs = Map.empty, tick = 3,
           trace = [Get ENG_URL, Log WARNING ''Unexpected %s content - skip'' [S ''ENG''],
                    Get TRANS_URL, Log WARNING ''Unexpected %s content - skip'' [S ''TRANS''],
                    Sleep 120],
           seen_eng = {}, seen_trans = {}, backoff = 120\<rparr>)"
    by (simp add: cycle_def try_body_def process_stream_def poll_once_def seq_def lift_def
        session_get_def r malformed_body_resolves logging_def log_def emit_def advance_def
        sleep_def env_malformed_def default_args_def initial_def)
  from 1 2 3 show ?thesis by (intro conjI)
qed


section \<open>The events of a download\<close>

lemma extends_steps: "extends Q w w' \<longleftrightarrow> (\<exists>new. steps w new w' \<and> (\<forall>ev\<in>set new. Q ev))"
  unfolding extends_def steps_def by blast









lemma snapshots_append: "snapshots (xs @ ys) = snapshots xs @ snapshots ys"
  by (induction xs rule: snapshots.induct) simp_all



subsection \<open>What each operation returns\<close>







subsection \<open>Streaming into the temporary file\<close>






subsection \<open>The temporary path\<close>







text \<open>A name that ends with \<open>.zip\<close> after something else has the suffix \<open>.zip\<close>, which
  \<open>.part\<close> replaces.\<close>

lemma suffix_of_zip:
  assumes "stem \<noteq> []"
  shows "suffix_of (stem @ ''.zip'') = ''.zip''"
proof -
  have "rfind CHR ''.'' (stem @ ''.zip'') = int (length stem)"
    by (simp add: rfind_def)
  then show ?thesis using assms by (simp add: suffix_of_def Let_def)
qed

lemma with_suffix_zip:
  assumes "name_of dest = stem @ ''.zip''" "stem \<noteq> []"
  shows "with_suffix dest ''.part'' = Inr (Path (root dest) (butlast (segs dest) @ [stem @ ''.part'']))"
  using assms suffix_of_zip [OF assms(2)]
  by (simp add: with_suffix_def Let_def)


subsection \<open>The ways \<open>download_zip\<close> ends\<close>



subsection \<open>What a download leaves behind\<close>












section \<open>The steps of one resolved link\<close>

subsection \<open>The ways the extraction step and the link end\<close>



subsection \<open>What an extraction leaves behind\<close>












subsection \<open>Unfolding a concrete run\<close>



section \<open>Where the archive and its content go\<close>









section \<open>The destination during a download\<close>









end
